theory Spec2Isabelle
  imports Main "HOL-Library.Word"
begin

section \<open>Bytes and byte-lexicographic comparison\<close>

text \<open>
  Go strings and \<open>[]byte\<close> values are sequences of 8-bit bytes.  Keys are compared by
  the engine bytewise, unsigned, a proper prefix sorting before its extensions.
\<close>

type_synonym byte = "8 word"
type_synonym bytes = "byte list"

fun bytes_less :: "bytes \<Rightarrow> bytes \<Rightarrow> bool" where
  "bytes_less [] [] = False"
| "bytes_less [] (y # ys) = True"
| "bytes_less (x # xs) [] = False"
| "bytes_less (x # xs) (y # ys) = (x < y \<or> (x = y \<and> bytes_less xs ys))"

definition bytes_le :: "bytes \<Rightarrow> bytes \<Rightarrow> bool" where
  "bytes_le a b = (a = b \<or> bytes_less a b)"

definition hasPrefix :: "bytes \<Rightarrow> bytes \<Rightarrow> bool" where
  "hasPrefix k p = (take (length p) k = p)"

section \<open>The range bounds of a prefix scan\<close>

text \<open>
  The closure that computes \<open>UpperBound\<close> in \<open>Query\<close>:
  \<^verbatim>\<open>
  var upper []byte
  for i := len(prefix) - 1; i >= 0; i-- {
      b := prefix[i]
      if b == 0xff { continue }
      upper = make([]byte, i+1)
      copy(upper, prefix)
      upper[i] = b + 1
      break
  }
  return upper
  \<close>
  The loop counter \<open>i\<close> runs from \<open>len(prefix) - 1\<close> down to \<open>0\<close>; the model counts
  \<open>n = i + 1\<close>, so that \<open>n = 0\<close> is the loop's exit.  A nil slice (no upper bound) is
  \<open>None\<close>.
\<close>

fun upperLoop :: "bytes \<Rightarrow> nat \<Rightarrow> bytes option" where
  "upperLoop prefix 0 = None"
| "upperLoop prefix (Suc i) =
     (let b = prefix ! i in
      if b = 0xff then upperLoop prefix i
      else Some ((take (Suc i) prefix)[i := b + 1]))"

definition upperBound :: "bytes \<Rightarrow> bytes option" where
  "upperBound prefix = upperLoop prefix (length prefix)"

record IterOptions =
  LowerBound :: bytes
  UpperBound :: "bytes option"

text \<open>A key lies in the range of the options when \<open>lower \<le> key\<close> and, if there is an
  upper bound, \<open>key < upper\<close>.\<close>

definition in_bounds :: "IterOptions \<Rightarrow> bytes \<Rightarrow> bool" where
  "in_bounds opts k =
     (bytes_le (LowerBound opts) k \<and>
      (case UpperBound opts of None \<Rightarrow> True | Some u \<Rightarrow> bytes_less k u))"

section \<open>Errors, entries and results\<close>

text \<open>
  Errors are values.  \<open>PebbleErrNotFound\<close> is the engine's \<open>pebble.ErrNotFound\<close>,
  \<open>ErrNotFound\<close> is \<open>ds.ErrNotFound\<close>, \<open>EngineError n\<close> is any other error the engine
  reports (\<open>n\<close> tells them apart), \<open>ErrIncompatibleOrders\<close> is
  \<open>fmt.Errorf("incompatible orders passed: ...")\<close>, \<open>ErrCloseRequested\<close> is
  \<open>fmt.Errorf("close requested")\<close> and \<open>Wrapped msg e\<close> is \<open>fmt.Errorf(msg + ": %w", e)\<close>.
\<close>

datatype error =
    ErrNotFound
  | PebbleErrNotFound
  | EngineError nat
  | ErrIncompatibleOrders
  | ErrCloseRequested
  | Wrapped string error

fun errors_Is :: "error \<Rightarrow> error \<Rightarrow> bool" where
  "errors_Is (Wrapped msg e) t = (Wrapped msg e = t \<or> errors_Is e t)"
| "errors_Is e t = (e = t)"

text \<open>\<open>query.Entry\<close>: a nil \<open>Value\<close> slice is \<open>None\<close>; \<open>Size\<close> is a Go \<open>int\<close>.\<close>

record Entry =
  Key :: bytes
  Value :: "bytes option"
  Size :: int

text \<open>\<open>query.Result\<close> carries an entry or an error.\<close>

datatype Result = ResultEntry Entry | ResultError error

text \<open>
  \<open>query.Order\<close> is an interface; the type switches of \<open>Query\<close> tell apart the two key
  orders, each as a value and as a pointer.  Every other implementation is
  \<open>OtherOrder\<close>, with a tag that names its comparator.
\<close>

datatype Order =
    OrderByKey
  | OrderByKeyPtr
  | OrderByKeyDescending
  | OrderByKeyDescendingPtr
  | OtherOrder nat

text \<open>\<open>query.Query\<close>; a \<open>query.Filter\<close> is its \<open>Filter(entry) bool\<close> method.\<close>

record query =
  Prefix :: bytes
  Filters :: "(Entry \<Rightarrow> bool) list"
  Orders :: "Order list"
  Limit :: int
  Offset :: int
  KeysOnly :: bool
  ReturnExpirations :: bool
  ReturnsSizes :: bool

text \<open>
  \<open>query.Results\<close>.  The constructors of the library that \<open>Query\<close> and
  \<open>inefficientOrderQuery\<close> call are kept as they are called: \<open>ResultsWithEntries\<close> with
  its entries, \<open>ResultsWithProcess\<close> with the results its process delivered on the
  output channel, and the two wrappers of the fallback path, which rewrite the
  results in memory inside the library.
\<close>

datatype Results =
    ResultsWithEntries query "Entry list"
  | ResultsWithProcess query "Result list"
  | ResultsReplaceQuery Results query
  | NaiveQueryApply query Results

section \<open>The storage engine, as a resource-tracking double\<close>

text \<open>
  Modelled from the spec: the engine (\<open>pebble.DB\<close>, its iterators and batches) is an
  external collaborator, known here by the contract of the spec's section 6 only:
  \<open>NewCursor(lowerBound, upperBound)\<close> with
  \<open>SeekFirst/SeekLast/Next/Prev/Valid/CurrentKey/CurrentValue/Error/Close\<close>,
  \<open>Get\<close>, \<open>Set\<close>, \<open>Delete\<close>, \<open>NewBatch\<close> with \<open>Set/Delete/Commit\<close>, \<open>Flush\<close> and \<open>Close\<close>.

  The double keeps its records in ascending key order.  A record can be faulty in
  three ways: reading its value fails (\<open>ival = Inl err\<close>); the engine fails to reach
  it (\<open>ifail = Some err\<close>: a cursor that is positioned on it or moves onto it has met
  the error, the scan has ended); or a cursor that stands on it has an error pending
  (\<open>ierr = Some err\<close>: the cursor is still valid and \<open>Error()\<close> reports the error; its
  next move ends the scan).  A cursor whose scan an error has ended holds the error in
  \<open>failed\<close>: it is not valid, it stays where it is and \<open>Error()\<close> reports the error.

  Every cursor handed out stays in the table \<open>cursors\<close>, with the number of times it
  was positioned or moved and the number of times it was closed.  A cursor holds the
  records between its bounds as they were when it was opened; it is valid while no
  error has ended its scan and its position is one of them.  The
  \<open>context.Context\<close> every operation takes is not modelled.
\<close>

record item =
  ikey :: bytes
  ival :: "error + bytes"
  ierr :: "error option"
  ifail :: "error option"

record Iterator =
  items :: "item list"
  pos :: int
  moves :: nat
  closes :: nat
  failed :: "error option"

record DB =
  data :: "item list"
  newIterErr :: "error option"
  writeErr :: "error option"
  cursors :: "nat \<Rightarrow> Iterator"
  ncursors :: nat
  flushes :: nat
  dbCloses :: nat

definition NewIterWithContext :: "DB \<Rightarrow> IterOptions \<Rightarrow> (error + nat) \<times> DB" where
  "NewIterWithContext eng opts =
     (case newIterErr eng of
        Some err \<Rightarrow> (Inl err, eng)
      | None \<Rightarrow>
          (Inr (ncursors eng),
           eng\<lparr>cursors := (cursors eng)
                  (ncursors eng :=
                     \<lparr>items = filter (\<lambda>x. in_bounds opts (ikey x)) (data eng),
                      pos = - 1, moves = 0, closes = 0, failed = None\<rparr>),
               ncursors := Suc (ncursors eng)\<rparr>))"

definition iter_upd :: "nat \<Rightarrow> (Iterator \<Rightarrow> Iterator) \<Rightarrow> DB \<Rightarrow> DB" where
  "iter_upd h f eng = eng\<lparr>cursors := (cursors eng)(h := f (cursors eng h))\<rparr>"

definition inRange :: "Iterator \<Rightarrow> bool" where
  "inRange it = (0 \<le> pos it \<and> pos it < int (length (items it)))"

definition current :: "Iterator \<Rightarrow> item" where
  "current it = items it ! nat (pos it)"

definition valid :: "Iterator \<Rightarrow> bool" where
  "valid it = (failed it = None \<and> inRange it)"

text \<open>
  The cursor is put on the position \<open>p\<close>: if the engine fails to reach the record
  there, the scan has ended.
\<close>

definition arrive :: "int \<Rightarrow> Iterator \<Rightarrow> Iterator" where
  "arrive p it =
     (let it1 = it\<lparr>pos := p, moves := Suc (moves it)\<rparr>
      in if inRange it1 then
           (case ifail (current it1) of
              Some err \<Rightarrow> it1\<lparr>failed := Some err\<rparr>
            | None \<Rightarrow> it1)
         else it1)"

text \<open>
  The cursor moves by \<open>step\<close> (1 or -1).  A cursor whose scan has ended stays where it
  is; a pending error of the record it stands on ends the scan; else it arrives at
  the next position.
\<close>

definition advance :: "int \<Rightarrow> Iterator \<Rightarrow> Iterator" where
  "advance step it =
     (if failed it \<noteq> None then it\<lparr>moves := Suc (moves it)\<rparr>
      else if inRange it \<and> ierr (current it) \<noteq> None
      then it\<lparr>moves := Suc (moves it), failed := ierr (current it)\<rparr>
      else arrive (pos it + step) it)"

definition iter_First :: "nat \<Rightarrow> DB \<Rightarrow> DB" where
  "iter_First h = iter_upd h (arrive 0)"

definition iter_Last :: "nat \<Rightarrow> DB \<Rightarrow> DB" where
  "iter_Last h = iter_upd h (\<lambda>it. arrive (int (length (items it)) - 1) it)"

definition iter_Next :: "nat \<Rightarrow> DB \<Rightarrow> DB" where
  "iter_Next h = iter_upd h (advance 1)"

definition iter_Prev :: "nat \<Rightarrow> DB \<Rightarrow> DB" where
  "iter_Prev h = iter_upd h (advance (- 1))"

definition iter_Close :: "nat \<Rightarrow> DB \<Rightarrow> DB" where
  "iter_Close h = iter_upd h (\<lambda>it. it\<lparr>closes := Suc (closes it)\<rparr>)"

definition iter_Valid :: "nat \<Rightarrow> DB \<Rightarrow> bool" where
  "iter_Valid h eng = valid (cursors eng h)"

definition iter_Key :: "nat \<Rightarrow> DB \<Rightarrow> bytes" where
  "iter_Key h eng = ikey (current (cursors eng h))"

definition iter_ValueAndErr :: "nat \<Rightarrow> DB \<Rightarrow> error + bytes" where
  "iter_ValueAndErr h eng = ival (current (cursors eng h))"

definition iter_Error :: "nat \<Rightarrow> DB \<Rightarrow> error option" where
  "iter_Error h eng =
     (case failed (cursors eng h) of
        Some err \<Rightarrow> Some err
      | None \<Rightarrow>
          if inRange (cursors eng h) then ierr (current (cursors eng h)) else None)"

text \<open>Point reads and writes of the double.\<close>

definition db_Get :: "DB \<Rightarrow> bytes \<Rightarrow> error + bytes" where
  "db_Get eng k =
     (case find (\<lambda>x. ikey x = k) (data eng) of
        None \<Rightarrow> Inl PebbleErrNotFound
      | Some x \<Rightarrow> ival x)"

fun store_set :: "bytes \<Rightarrow> bytes \<Rightarrow> item list \<Rightarrow> item list" where
  "store_set k v [] = [\<lparr>ikey = k, ival = Inr v, ierr = None, ifail = None\<rparr>]"
| "store_set k v (x # xs) =
     (if ikey x = k then \<lparr>ikey = k, ival = Inr v, ierr = None, ifail = None\<rparr> # xs
      else if bytes_less k (ikey x) then \<lparr>ikey = k, ival = Inr v, ierr = None, ifail = None\<rparr> # x # xs
      else x # store_set k v xs)"

definition store_delete :: "bytes \<Rightarrow> item list \<Rightarrow> item list" where
  "store_delete k xs = filter (\<lambda>x. ikey x \<noteq> k) xs"

definition db_Set :: "DB \<Rightarrow> bytes \<Rightarrow> bytes \<Rightarrow> error option \<times> DB" where
  "db_Set eng k v =
     (case writeErr eng of
        Some err \<Rightarrow> (Some err, eng)
      | None \<Rightarrow> (None, eng\<lparr>data := store_set k v (data eng)\<rparr>))"

definition db_Delete :: "DB \<Rightarrow> bytes \<Rightarrow> error option \<times> DB" where
  "db_Delete eng k =
     (case writeErr eng of
        Some err \<Rightarrow> (Some err, eng)
      | None \<Rightarrow> (None, eng\<lparr>data := store_delete k (data eng)\<rparr>))"

text \<open>
  The engine's batch records its operations in the order they were added; a commit
  applies them to the store in that order, all or (on a write error) none.
\<close>

datatype batch_op = BatchSet bytes bytes | BatchDelete bytes

type_synonym pebble_Batch = "batch_op list"

fun apply_op :: "item list \<Rightarrow> batch_op \<Rightarrow> item list" where
  "apply_op xs (BatchSet k v) = store_set k v xs"
| "apply_op xs (BatchDelete k) = store_delete k xs"

definition batch_Set :: "pebble_Batch \<Rightarrow> bytes \<Rightarrow> bytes \<Rightarrow> error option \<times> pebble_Batch" where
  "batch_Set b k v = (None, b @ [BatchSet k v])"

definition batch_Delete :: "pebble_Batch \<Rightarrow> bytes \<Rightarrow> error option \<times> pebble_Batch" where
  "batch_Delete b k = (None, b @ [BatchDelete k])"

definition batch_Commit :: "pebble_Batch \<Rightarrow> DB \<Rightarrow> error option \<times> DB" where
  "batch_Commit b eng =
     (case writeErr eng of
        Some err \<Rightarrow> (Some err, eng)
      | None \<Rightarrow> (None, eng\<lparr>data := foldl apply_op (data eng) b\<rparr>))"

definition db_Flush :: "DB \<Rightarrow> DB" where
  "db_Flush eng = eng\<lparr>flushes := Suc (flushes eng)\<rparr>"

definition db_Close :: "DB \<Rightarrow> error option \<times> DB" where
  "db_Close eng = (None, eng\<lparr>dbCloses := Suc (dbCloses eng)\<rparr>)"

section \<open>The datastore\<close>

text \<open>
  The struct \<open>Datastore\<close>: the engine handle, the \<open>status\<close> word that \<open>Close\<close> swaps
  from 0 to 1, the \<open>closing\<close> channel (\<open>True\<close> once it is closed), the counter of the
  wait group and the one option the code reads.
\<close>

record Options =
  DisableWAL :: bool

record Datastore =
  db :: DB
  status :: int
  closing :: bool
  wg :: int
  opts :: Options

subsection \<open>Keys\<close>

text \<open>
  Modelled from the library's documentation: \<open>ds.NewKey(s).String()\<close> belongs to
  go-datastore.  \<open>NewKey\<close> makes the empty string \<open>"/"\<close>, puts a \<open>/\<close> in front of a
  string that has none and cleans the path with Go's \<open>path.Clean\<close>, which on a rooted
  path drops empty and \<open>.\<close> elements, drops a \<open>..\<close> element with the element before
  it (or alone, at the root) and leaves no trailing slash but the root's.
\<close>

definition slash :: byte where
  "slash = 0x2f"

definition dot :: byte where
  "dot = 0x2e"

fun splitSlash :: "bytes \<Rightarrow> bytes \<Rightarrow> bytes list" where
  "splitSlash acc [] = [rev acc]"
| "splitSlash acc (c # cs) =
     (if c = slash then rev acc # splitSlash [] cs else splitSlash (c # acc) cs)"

fun cleanElems :: "bytes list \<Rightarrow> bytes list \<Rightarrow> bytes list" where
  "cleanElems stack [] = rev stack"
| "cleanElems stack (e # es) =
     (if e = [] \<or> e = [dot] then cleanElems stack es
      else if e = [dot, dot] then cleanElems (tl stack) es
      else cleanElems (e # stack) es)"

definition path_Clean :: "bytes \<Rightarrow> bytes" where
  "path_Clean p =
     (let es = cleanElems [] (splitSlash [] p)
      in if es = [] then [slash] else concat (map (\<lambda>e. slash # e) es))"

definition NewKey_String :: "bytes \<Rightarrow> bytes" where
  "NewKey_String s =
     (if s = [] then [slash]
      else if hd s = slash then path_Clean s
      else path_Clean (slash # s))"

text \<open>\<open>key.Bytes()\<close> of a \<open>ds.Key\<close>: the key's string as bytes.\<close>

type_synonym Key = bytes

subsection \<open>Point operations\<close>

text \<open>
  \<open>get\<close> turns the engine's not-found error into \<open>ds.ErrNotFound\<close>; the closer the engine
  returns with a value closes without error in the double.  Go's \<open>int\<close> is modelled by
  \<open>int\<close>: the lengths and counters of this code stay far below \<open>2^63\<close>.
\<close>

definition get :: "Datastore \<Rightarrow> bytes \<Rightarrow> error + bytes" where
  "get d key =
     (case db_Get (db d) key of
        Inl err \<Rightarrow> if errors_Is err PebbleErrNotFound then Inl ErrNotFound else Inl err
      | Inr val \<Rightarrow> Inr val)"

definition Get :: "Datastore \<Rightarrow> Key \<Rightarrow> error + bytes" where
  "Get d key = get d key"

definition Has :: "Datastore \<Rightarrow> Key \<Rightarrow> error + bool" where
  "Has d key =
     (case get d key of
        Inl err \<Rightarrow> if errors_Is err ErrNotFound then Inr False else Inl err
      | Inr val \<Rightarrow> Inr True)"

definition GetSize :: "Datastore \<Rightarrow> Key \<Rightarrow> int \<times> error option" where
  "GetSize d key =
     (case get d key of
        Inl err \<Rightarrow> (- 1, Some err)
      | Inr val \<Rightarrow> (int (length val), None))"

definition Put :: "Datastore \<Rightarrow> Key \<Rightarrow> bytes \<Rightarrow> error option \<times> Datastore" where
  "Put d key val =
     (case db_Set (db d) key val of
        (Some err, eng) \<Rightarrow> (Some (Wrapped ''pebble error during set'' err), d\<lparr>db := eng\<rparr>)
      | (None, eng) \<Rightarrow> (None, d\<lparr>db := eng\<rparr>))"

definition Delete :: "Datastore \<Rightarrow> Key \<Rightarrow> error option \<times> Datastore" where
  "Delete d key =
     (case db_Delete (db d) key of
        (Some err, eng) \<Rightarrow> (Some (Wrapped ''pebble error during delete'' err), d\<lparr>db := eng\<rparr>)
      | (None, eng) \<Rightarrow> (None, d\<lparr>db := eng\<rparr>))"

subsection \<open>Batches\<close>

text \<open>The struct \<open>Batch\<close> wraps the engine's batch.\<close>

record Batch =
  batch :: pebble_Batch

definition Datastore_Batch :: "Datastore \<Rightarrow> error + Batch" where
  "Datastore_Batch d = Inr \<lparr>batch = []\<rparr>"

definition Batch_Put :: "Batch \<Rightarrow> Key \<Rightarrow> bytes \<Rightarrow> error option \<times> Batch" where
  "Batch_Put b key val =
     (case batch_Set (batch b) key val of
        (Some err, pb) \<Rightarrow>
          (Some (Wrapped ''pebble error during set within batch'' err), b\<lparr>batch := pb\<rparr>)
      | (None, pb) \<Rightarrow> (None, b\<lparr>batch := pb\<rparr>))"

definition Batch_Delete :: "Batch \<Rightarrow> Key \<Rightarrow> error option \<times> Batch" where
  "Batch_Delete b key =
     (case batch_Delete (batch b) key of
        (Some err, pb) \<Rightarrow>
          (Some (Wrapped ''pebble error during delete within batch'' err), b\<lparr>batch := pb\<rparr>)
      | (None, pb) \<Rightarrow> (None, b\<lparr>batch := pb\<rparr>))"

definition Batch_Commit :: "Batch \<Rightarrow> Datastore \<Rightarrow> error option \<times> Datastore" where
  "Batch_Commit b d =
     (case batch_Commit (batch b) (db d) of (err, eng) \<Rightarrow> (err, d\<lparr>db := eng\<rparr>))"

subsection \<open>The planner's loop over several orders\<close>

text \<open>
  \<^verbatim>\<open>
  var baseOrder query.Order
  for _, o := range orders {
      if baseOrder != nil {
          return nil, fmt.Errorf("incompatible orders passed: %+v", orders)
      }
      switch o.(type) {
      case query.OrderByKey, query.OrderByKeyDescending, *query.OrderByKey, *query.OrderByKeyDescending:
          baseOrder = o
      }
  }
  \<close>
\<close>

fun isKeyOrder :: "Order \<Rightarrow> bool" where
  "isKeyOrder OrderByKey = True"
| "isKeyOrder OrderByKeyDescending = True"
| "isKeyOrder OrderByKeyPtr = True"
| "isKeyOrder OrderByKeyDescendingPtr = True"
| "isKeyOrder (OtherOrder c) = False"

fun orderLoop :: "Order list \<Rightarrow> Order option \<Rightarrow> error + Order option" where
  "orderLoop [] baseOrder = Inr baseOrder"
| "orderLoop (ord # ords) baseOrder =
     (if baseOrder \<noteq> None then Inl ErrIncompatibleOrders
      else orderLoop ords (if isKeyOrder ord then Some ord else baseOrder))"

subsection \<open>The result stream\<close>

text \<open>
  The consumer and the shutdown signals are the environment of the streamer's task.
  \<open>demand = Some n\<close>: the consumer receives \<open>n\<close> more results, then a select of
  \<open>sendOrInterrupt\<close> takes one of the closing cases (\<open>d.closing\<close>, \<open>proc.Closed()\<close>,
  \<open>proc.Closing()\<close>); \<open>demand = None\<close>: every send is received.  \<open>hears_close\<close>: the
  non-blocking send of the "close requested" error finds the consumer ready.
  \<open>sent\<close> collects what was delivered on \<open>outCh\<close>, in order.
\<close>

record consumer =
  demand :: "nat option"
  hears_close :: bool

record outCh = consumer +
  sent :: "Result list"

definition newChan :: "consumer \<Rightarrow> outCh" where
  "newChan c = \<lparr>demand = demand c, hears_close = hears_close c, sent = []\<rparr>"

text \<open>\<open>panic(interrupted)\<close> unwinds the task: \<open>Interrupted\<close> carries the state it leaves.\<close>

datatype 'a flow = Proceed 'a | Interrupted 'a

definition sendOrInterrupt :: "Result \<Rightarrow> outCh \<Rightarrow> outCh flow" where
  "sendOrInterrupt r ch =
     (case demand ch of
        None \<Rightarrow> Proceed (ch\<lparr>sent := sent ch @ [r]\<rparr>)
      | Some n \<Rightarrow>
          (case n of
             Suc m \<Rightarrow> Proceed (ch\<lparr>sent := sent ch @ [r], demand := Some m\<rparr>)
           | 0 \<Rightarrow>
               Interrupted
                 (if hears_close ch then ch\<lparr>sent := sent ch @ [ResultError ErrCloseRequested]\<rparr>
                  else ch)))"

text \<open>\<open>move\<close> is bound to \<open>iter.Next\<close> or to \<open>iter.Prev\<close>.\<close>

datatype mover = Next | Prev

fun move :: "mover \<Rightarrow> nat \<Rightarrow> DB \<Rightarrow> DB" where
  "move Next h eng = iter_Next h eng"
| "move Prev h eng = iter_Prev h eng"

fun filterFn :: "(Entry \<Rightarrow> bool) list \<Rightarrow> Entry \<Rightarrow> bool" where
  "filterFn [] entry = True"
| "filterFn (f # fs) entry = (if \<not> f entry then False else filterFn fs entry)"

definition doFilter :: "query \<Rightarrow> bool" where
  "doFilter q = (length (Filters q) > 0)"

definition createEntry :: "query \<Rightarrow> nat \<Rightarrow> DB \<Rightarrow> error + Entry" where
  "createEntry q h eng =
     (let entry = \<lparr>Key = iter_Key h eng, Value = None, Size = 0\<rparr>;
          r1 = (if \<not> KeysOnly q then
                  (case iter_ValueAndErr h eng of
                     Inl err \<Rightarrow> Inl err
                   | Inr val \<Rightarrow> Inr (entry\<lparr>Value := Some val\<rparr>))
                else Inr entry)
      in case r1 of
           Inl err \<Rightarrow> Inl err
         | Inr entry1 \<Rightarrow>
             if ReturnsSizes q then
               (case iter_ValueAndErr h eng of
                  Inl err \<Rightarrow> Inl err
                | Inr val \<Rightarrow> Inr (entry1\<lparr>Size := int (length val)\<rparr>))
             else Inr entry1)"

text \<open>The check of \<open>iter.Error()\<close> that opens the body of both loops.\<close>

definition reportError :: "nat \<Rightarrow> DB \<Rightarrow> outCh \<Rightarrow> outCh flow" where
  "reportError h eng ch =
     (case iter_Error h eng of
        None \<Rightarrow> Proceed ch
      | Some err \<Rightarrow> sendOrInterrupt (ResultError err) ch)"

text \<open>
  What both loops count down: nothing once an error has ended the scan, else one more
  than the distance of the cursor from the end it moves to.
\<close>

fun togo :: "mover \<Rightarrow> Iterator \<Rightarrow> nat" where
  "togo Next it =
     (if failed it \<noteq> None then 0 else Suc (nat (int (length (items it)) - pos it)))"
| "togo Prev it = (if failed it \<noteq> None then 0 else Suc (nat (pos it + 1)))"

text \<open>
  \<^verbatim>\<open>
  for skipped := 0; skipped < offset && iter.Valid(); move() {
      if err := iter.Error(); err != nil { sendOrInterrupt(query.Result{Error: err}) }
      e, err := createEntry()
      if err != nil { continue }
      if doFilter && !filterFn(e) { continue }
      skipped++
  }
  \<close>
\<close>

function skipLoop :: "query \<Rightarrow> mover \<Rightarrow> nat \<Rightarrow> int \<Rightarrow> DB \<times> outCh \<Rightarrow> (DB \<times> outCh) flow" where
  "skipLoop q mv h skipped (eng, ch) =
     (if skipped < Offset q \<and> iter_Valid h eng then
        (case reportError h eng ch of
           Interrupted ch1 \<Rightarrow> Interrupted (eng, ch1)
         | Proceed ch1 \<Rightarrow>
             (case createEntry q h eng of
                Inl err \<Rightarrow> skipLoop q mv h skipped (move mv h eng, ch1)
              | Inr e \<Rightarrow>
                  if doFilter q \<and> \<not> filterFn (Filters q) e
                  then skipLoop q mv h skipped (move mv h eng, ch1)
                  else skipLoop q mv h (skipped + 1) (move mv h eng, ch1)))
      else Proceed (eng, ch))"
  by pat_completeness auto
termination
proof (relation "measure (\<lambda>(q, mv, h, skipped, eng, ch). togo mv (cursors eng h))")
  show "wf (measure (\<lambda>(q, mv, h, skipped, eng, ch). togo mv (cursors eng h)))"
    by simp
qed (case_tac mv;
    auto simp add: iter_Valid_def valid_def inRange_def iter_Next_def iter_Prev_def iter_upd_def
      advance_def arrive_def Let_def split: option.splits)+

text \<open>
  \<^verbatim>\<open>
  for sent := 0; (limit <= 0 || sent < limit) && iter.Valid(); move() {
      if err := iter.Error(); err != nil { sendOrInterrupt(query.Result{Error: err}) }
      entry, err := createEntry()
      if err != nil { continue }
      if doFilter && !filterFn(entry) { continue }
      sendOrInterrupt(query.Result{Entry: entry})
      sent++
  }
  \<close>
\<close>

function sendLoop :: "query \<Rightarrow> mover \<Rightarrow> nat \<Rightarrow> int \<Rightarrow> DB \<times> outCh \<Rightarrow> (DB \<times> outCh) flow" where
  "sendLoop q mv h nsent (eng, ch) =
     (if (Limit q \<le> 0 \<or> nsent < Limit q) \<and> iter_Valid h eng then
        (case reportError h eng ch of
           Interrupted ch1 \<Rightarrow> Interrupted (eng, ch1)
         | Proceed ch1 \<Rightarrow>
             (case createEntry q h eng of
                Inl err \<Rightarrow> sendLoop q mv h nsent (move mv h eng, ch1)
              | Inr entry \<Rightarrow>
                  if doFilter q \<and> \<not> filterFn (Filters q) entry
                  then sendLoop q mv h nsent (move mv h eng, ch1)
                  else
                    (case sendOrInterrupt (ResultEntry entry) ch1 of
                       Interrupted ch2 \<Rightarrow> Interrupted (eng, ch2)
                     | Proceed ch2 \<Rightarrow> sendLoop q mv h (nsent + 1) (move mv h eng, ch2))))
      else Proceed (eng, ch))"
  by pat_completeness auto
termination
proof (relation "measure (\<lambda>(q, mv, h, nsent, eng, ch). togo mv (cursors eng h))")
  show "wf (measure (\<lambda>(q, mv, h, nsent, eng, ch). togo mv (cursors eng h)))"
    by simp
qed (case_tac mv;
    auto simp add: iter_Valid_def valid_def inRange_def iter_Next_def iter_Prev_def iter_upd_def
      advance_def arrive_def Let_def split: option.splits)+

text \<open>
  The task that \<open>ResultsWithProcess\<close> starts: both loops, between the deferred calls.
  A \<open>panic(interrupted)\<close> is recovered; \<open>iter.Close()\<close> runs on every way out of the
  task.  (\<open>d.wg.Done()\<close> is in \<open>streamResults\<close>, next to \<open>d.wg.Add(1)\<close>.)
\<close>

definition streamTask :: "query \<Rightarrow> mover \<Rightarrow> nat \<Rightarrow> DB \<times> outCh \<Rightarrow> DB \<times> outCh" where
  "streamTask q mv h s =
     (let r = (case skipLoop q mv h 0 s of
                 Interrupted s1 \<Rightarrow> Interrupted s1
               | Proceed s1 \<Rightarrow> sendLoop q mv h 0 s1)
      in case r of
           Interrupted (eng, ch) \<Rightarrow> (iter_Close h eng, ch)
         | Proceed (eng, ch) \<Rightarrow> (iter_Close h eng, ch))"

text \<open>
  The part of \<open>Query\<close> after the switch on the orders (from \<open>if !iter.Valid()\<close> to the
  end): the cursor is positioned and \<open>move\<close> is chosen.  The task is run to its end
  against the consumer \<open>c\<close>; the results it delivered are the contents of the
  \<open>ResultsWithProcess\<close>.
\<close>

definition streamResults ::
  "Datastore \<Rightarrow> query \<Rightarrow> consumer \<Rightarrow> nat \<Rightarrow> mover \<Rightarrow> (error + Results) \<times> Datastore" where
  "streamResults d q c iter mv =
     (if \<not> iter_Valid iter (db d) then
        (Inr (ResultsWithEntries q []), d\<lparr>db := iter_Close iter (db d)\<rparr>)
      else
        (let d1 = d\<lparr>wg := wg d + 1\<rparr> in
         case streamTask q mv iter (db d1, newChan c) of
           (eng, ch) \<Rightarrow>
             (let d2 = d1\<lparr>db := eng\<rparr>;
                  d3 = d2\<lparr>wg := wg d2 - 1\<rparr>
              in (Inr (ResultsWithProcess q (sent ch)), d3))))"

text \<open>What the recursion of \<open>Query\<close> through \<open>inefficientOrderQuery\<close> counts down.\<close>

definition planCost :: "Order list \<Rightarrow> nat" where
  "planCost orders =
     (if length orders = 0 then 0
      else if length orders = 1 then (if isKeyOrder (orders ! 0) then 0 else 2)
      else 4)"

function Query :: "Datastore \<Rightarrow> query \<Rightarrow> consumer \<Rightarrow> (error + Results) \<times> Datastore"
  and inefficientOrderQuery ::
    "Datastore \<Rightarrow> query \<Rightarrow> Order option \<Rightarrow> consumer \<Rightarrow> (error + Results) \<times> Datastore" where
  "Query d q c =
     (let prefix0 = NewKey_String (Prefix q);
          prefix = (if prefix0 \<noteq> [slash] then prefix0 @ [slash] else prefix0);
          iopts = \<lparr>LowerBound = prefix, UpperBound = upperBound prefix\<rparr>
      in case NewIterWithContext (db d) iopts of
           (Inl err, eng) \<Rightarrow> (Inl err, d\<lparr>db := eng\<rparr>)
         | (Inr iter, eng) \<Rightarrow>
             (let d1 = d\<lparr>db := eng\<rparr>; l = length (Orders q) in
              if l = 0 then streamResults (d1\<lparr>db := iter_First iter eng\<rparr>) q c iter Next
              else if l = 1 then
                (case Orders q ! 0 of
                   OrderByKey \<Rightarrow> streamResults (d1\<lparr>db := iter_First iter eng\<rparr>) q c iter Next
                 | OrderByKeyPtr \<Rightarrow> streamResults (d1\<lparr>db := iter_First iter eng\<rparr>) q c iter Next
                 | OrderByKeyDescending \<Rightarrow>
                     streamResults (d1\<lparr>db := iter_Last iter eng\<rparr>) q c iter Prev
                 | OrderByKeyDescendingPtr \<Rightarrow>
                     streamResults (d1\<lparr>db := iter_Last iter eng\<rparr>) q c iter Prev
                 | OtherOrder cmp \<Rightarrow>
                     (case inefficientOrderQuery d1 q None c of
                        (r, d2) \<Rightarrow> (r, d2\<lparr>db := iter_Close iter (db d2)\<rparr>)))
              else
                (case orderLoop (Orders q) None of
                   Inl err \<Rightarrow> (Inl err, d1)
                 | Inr baseOrder \<Rightarrow>
                     (case inefficientOrderQuery d1 q baseOrder c of
                        (r, d2) \<Rightarrow> (r, d2\<lparr>db := iter_Close iter (db d2)\<rparr>)))))"
| "inefficientOrderQuery d q baseOrder c =
     (let baseQuery = q\<lparr>Limit := 0, Offset := 0,
                        Orders := (case baseOrder of None \<Rightarrow> [] | Some ord \<Rightarrow> [ord])\<rparr>
      in case Query d baseQuery c of
           (Inl err, d1) \<Rightarrow> (Inl err, d1)
         | (Inr res, d1) \<Rightarrow>
             (let res1 = ResultsReplaceQuery res q;
                  naiveQuery = q\<lparr>Prefix := [], Filters := []\<rparr>
              in (Inr (NaiveQueryApply naiveQuery res1), d1)))"
  by pat_completeness auto
termination
proof (relation "measure (\<lambda>x. case x of
          Inl (d, q, c) \<Rightarrow> planCost (Orders q)
        | Inr (d, q, baseOrder, c) \<Rightarrow>
            Suc (planCost (case baseOrder of None \<Rightarrow> [] | Some ord \<Rightarrow> [ord])))")
  show "wf (measure (\<lambda>x. case x of
          Inl (d, q, c) \<Rightarrow> planCost (Orders q)
        | Inr (d, q, baseOrder, c) \<Rightarrow>
            Suc (planCost (case baseOrder of None \<Rightarrow> [] | Some ord \<Rightarrow> [ord]))))"
    by simp
qed (auto simp: planCost_def split: option.splits)

text \<open>
  The equations of the loops and of \<open>Query\<close> are unfolded by hand: each is an
  unconditional equation of the function in terms of itself.
\<close>

declare skipLoop.simps [simp del]
declare sendLoop.simps [simp del]
declare Query.simps [simp del]
declare inefficientOrderQuery.simps [simp del]

section \<open>Close, statement by statement\<close>

text \<open>
  \<^verbatim>\<open>
  func (d *Datastore) Close() error {
      if !atomic.CompareAndSwapInt32(&d.status, 0, 1) {   // NotCalled
          d.wg.Wait()                                      // AtWaitLost
          return nil                                       // ReturnedNil
      }
      close(d.closing)                                     // AtCloseChan
      d.wg.Wait()                                          // AtWaitWon
      _ = d.db.Flush()                                     // AtFlush
      return d.db.Close()                                  // AtDbClose, Returned err
  }
  \<close>
  \<open>Close\<close> can be called by several callers at once, and streamers end while it
  waits, so it is modelled by the steps of one call: a caller stands at a program
  point and its next statement, run on the datastore, takes it to the next point.
  The swap of \<open>status\<close> is one atomic step; \<open>d.wg.Wait()\<close> can be passed only when the
  counter of the wait group is zero (\<open>None\<close>: the caller is blocked, or has returned).
\<close>

datatype pc =
    NotCalled
  | AtWaitLost
  | ReturnedNil
  | AtCloseChan
  | AtWaitWon
  | AtFlush
  | AtDbClose
  | Returned "error option"

fun Close_step :: "pc \<Rightarrow> Datastore \<Rightarrow> (pc \<times> Datastore) option" where
  "Close_step NotCalled d =
     (if status d = 0 then Some (AtCloseChan, d\<lparr>status := 1\<rparr>) else Some (AtWaitLost, d))"
| "Close_step AtWaitLost d = (if wg d = 0 then Some (ReturnedNil, d) else None)"
| "Close_step ReturnedNil d = None"
| "Close_step AtCloseChan d = Some (AtWaitWon, d\<lparr>closing := True\<rparr>)"
| "Close_step AtWaitWon d = (if wg d = 0 then Some (AtFlush, d) else None)"
| "Close_step AtFlush d = Some (AtDbClose, d\<lparr>db := db_Flush (db d)\<rparr>)"
| "Close_step AtDbClose d =
     (case db_Close (db d) of (err, eng) \<Rightarrow> Some (Returned err, d\<lparr>db := eng\<rparr>))"
| "Close_step (Returned err) d = None"

text \<open>
  The datastore with the callers of \<open>Close\<close>, each at its program point.  An action is
  a step of one caller, the end of a streamer's task (\<open>d.wg.Done()\<close>) or the start of
  one (\<open>d.wg.Add(1)\<close> in \<open>Query\<close>); \<open>exec\<close> is \<open>None\<close> when the action cannot happen.
\<close>

record world =
  store :: Datastore
  callers :: "nat \<Rightarrow> pc"

datatype action = Closer nat | StreamerDone | StreamerStart

fun exec :: "action \<Rightarrow> world \<Rightarrow> world option" where
  "exec (Closer t) w =
     (case Close_step (callers w t) (store w) of
        None \<Rightarrow> None
      | Some (p, d) \<Rightarrow> Some \<lparr>store = d, callers = (callers w)(t := p)\<rparr>)"
| "exec StreamerDone w =
     (if 0 < wg (store w) then Some (w\<lparr>store := (store w)\<lparr>wg := wg (store w) - 1\<rparr>\<rparr>) else None)"
| "exec StreamerStart w = Some (w\<lparr>store := (store w)\<lparr>wg := wg (store w) + 1\<rparr>\<rparr>)"

fun run :: "action list \<Rightarrow> world \<Rightarrow> world option" where
  "run [] w = Some w"
| "run (a # as) w = (case exec a w of None \<Rightarrow> None | Some w1 \<Rightarrow> run as w1)"



text \<open>The caller that won the swap, at any of its later program points.\<close>

fun winner :: "pc \<Rightarrow> bool" where
  "winner AtCloseChan = True"
| "winner AtWaitWon = True"
| "winner AtFlush = True"
| "winner AtDbClose = True"
| "winner (Returned err) = True"
| "winner p = False"


fun teardown :: "pc \<Rightarrow> Datastore \<Rightarrow> bool" where
  "teardown AtCloseChan d = (\<not> closing d \<and> flushes (db d) = 0 \<and> dbCloses (db d) = 0)"
| "teardown AtWaitWon d = (closing d \<and> flushes (db d) = 0 \<and> dbCloses (db d) = 0)"
| "teardown AtFlush d = (closing d \<and> flushes (db d) = 0 \<and> dbCloses (db d) = 0)"
| "teardown AtDbClose d = (closing d \<and> flushes (db d) = 1 \<and> dbCloses (db d) = 0)"
| "teardown (Returned err) d = (closing d \<and> flushes (db d) = 1 \<and> dbCloses (db d) = 1)"
| "teardown p d = False"


section \<open>The stream, read off the records ahead of the cursor\<close>

text \<open>
  The statements about the streamer speak of the records the cursor has still to
  visit, in the order it visits them: \<open>ahead\<close>.  A scan over a list of records visits
  them up to the first one the engine fails to reach, or up to and with the first one
  that has an error pending (\<open>visit\<close>); a cursor that stands on a record has reached
  it (\<open>stand\<close>).  \<open>itemEntry\<close> is \<open>createEntry\<close> on a record, and \<open>skipList\<close> and
  \<open>sendList\<close> are the two loops on the list of the records ahead; the loops of the
  code are proved to compute them.
\<close>

fun visit :: "item list \<Rightarrow> item list" where
  "visit [] = []"
| "visit (x # xs) =
     (if ifail x \<noteq> None then [] else if ierr x \<noteq> None then [x] else x # visit xs)"

fun stand :: "item list \<Rightarrow> item list" where
  "stand [] = []"
| "stand (x # xs) = (if ierr x \<noteq> None then [x] else x # visit xs)"

definition ahead :: "mover \<Rightarrow> Iterator \<Rightarrow> item list" where
  "ahead mv it =
     (if valid it then
        stand
          (case mv of
             Next \<Rightarrow> drop (nat (pos it)) (items it)
           | Prev \<Rightarrow> rev (take (Suc (nat (pos it))) (items it)))
      else [])"

definition itemEntry :: "query \<Rightarrow> item \<Rightarrow> error + Entry" where
  "itemEntry q x =
     (let entry = \<lparr>Key = ikey x, Value = None, Size = 0\<rparr>;
          r1 = (if \<not> KeysOnly q then
                  (case ival x of
                     Inl err \<Rightarrow> Inl err
                   | Inr val \<Rightarrow> Inr (entry\<lparr>Value := Some val\<rparr>))
                else Inr entry)
      in case r1 of
           Inl err \<Rightarrow> Inl err
         | Inr entry1 \<Rightarrow>
             if ReturnsSizes q then
               (case ival x of
                  Inl err \<Rightarrow> Inl err
                | Inr val \<Rightarrow> Inr (entry1\<lparr>Size := int (length val)\<rparr>))
             else Inr entry1)"

definition reportItemError :: "item \<Rightarrow> outCh \<Rightarrow> outCh flow" where
  "reportItemError x ch =
     (case ierr x of
        None \<Rightarrow> Proceed ch
      | Some err \<Rightarrow> sendOrInterrupt (ResultError err) ch)"

fun skipList :: "query \<Rightarrow> int \<Rightarrow> item list \<Rightarrow> outCh \<Rightarrow> (item list \<times> outCh) flow" where
  "skipList q skipped [] ch = Proceed ([], ch)"
| "skipList q skipped (x # xs) ch =
     (if skipped < Offset q then
        (case reportItemError x ch of
           Interrupted ch1 \<Rightarrow> Interrupted (x # xs, ch1)
         | Proceed ch1 \<Rightarrow>
             (case itemEntry q x of
                Inl err \<Rightarrow> skipList q skipped xs ch1
              | Inr e \<Rightarrow>
                  if doFilter q \<and> \<not> filterFn (Filters q) e
                  then skipList q skipped xs ch1
                  else skipList q (skipped + 1) xs ch1))
      else Proceed (x # xs, ch))"

fun sendList :: "query \<Rightarrow> int \<Rightarrow> item list \<Rightarrow> outCh \<Rightarrow> (item list \<times> outCh) flow" where
  "sendList q nsent [] ch = Proceed ([], ch)"
| "sendList q nsent (x # xs) ch =
     (if Limit q \<le> 0 \<or> nsent < Limit q then
        (case reportItemError x ch of
           Interrupted ch1 \<Rightarrow> Interrupted (x # xs, ch1)
         | Proceed ch1 \<Rightarrow>
             (case itemEntry q x of
                Inl err \<Rightarrow> sendList q nsent xs ch1
              | Inr entry \<Rightarrow>
                  if doFilter q \<and> \<not> filterFn (Filters q) entry
                  then sendList q nsent xs ch1
                  else
                    (case sendOrInterrupt (ResultEntry entry) ch1 of
                       Interrupted ch2 \<Rightarrow> Interrupted (x # xs, ch2)
                     | Proceed ch2 \<Rightarrow> sendList q (nsent + 1) xs ch2)))
      else Proceed (x # xs, ch))"

text \<open>What a state of the task shows of the cursor \<open>h\<close>: the records ahead, and the channel.\<close>

definition view :: "mover \<Rightarrow> nat \<Rightarrow> DB \<times> outCh \<Rightarrow> item list \<times> outCh" where
  "view mv h s = (ahead mv (cursors (fst s) h), snd s)"

text \<open>The entries and the error events among delivered results.\<close>

fun entries :: "Result list \<Rightarrow> Entry list" where
  "entries [] = []"
| "entries (ResultEntry e # rs) = e # entries rs"
| "entries (ResultError err # rs) = entries rs"

fun errorEvents :: "Result list \<Rightarrow> error list" where
  "errorEvents [] = []"
| "errorEvents (ResultEntry e # rs) = errorEvents rs"
| "errorEvents (ResultError err # rs) = err # errorEvents rs"

text \<open>
  The filtered sequence of a list of records: the entries that can be materialised
  and that every filter of the query accepts, in the order of the list.
\<close>

definition entryOpt :: "query \<Rightarrow> item \<Rightarrow> Entry option" where
  "entryOpt q x = (case itemEntry q x of Inl err \<Rightarrow> None | Inr e \<Rightarrow> Some e)"

definition matching :: "query \<Rightarrow> item list \<Rightarrow> Entry list" where
  "matching q xs =
     filter (\<lambda>e. \<forall>f\<in>set (Filters q). f e) (List.map_filter (entryOpt q) xs)"

text \<open>Both loops of the task on a list of records, against a consumer: what is delivered.\<close>

definition taskList :: "query \<Rightarrow> item list \<Rightarrow> consumer \<Rightarrow> Result list" where
  "taskList q xs c =
     (case skipList q 0 xs (newChan c) of
        Interrupted (rest, ch) \<Rightarrow> sent ch
      | Proceed (rest, ch) \<Rightarrow>
          (case sendList q 0 rest ch of
             Interrupted (rest1, ch1) \<Rightarrow> sent ch1
           | Proceed (rest1, ch1) \<Rightarrow> sent ch1))"

text \<open>
  The options \<open>Query\<close> opens its cursor with, the records between the bounds that the
  query's scan visits, in the order it visits them, and the results a \<open>Results\<close> value
  of the native path delivers (what the library's in-memory evaluation delivers is
  not modelled).
\<close>

definition queryOpts :: "query \<Rightarrow> IterOptions" where
  "queryOpts q =
     (let prefix0 = NewKey_String (Prefix q);
          prefix = (if prefix0 \<noteq> [slash] then prefix0 @ [slash] else prefix0)
      in \<lparr>LowerBound = prefix, UpperBound = upperBound prefix\<rparr>)"

text \<open>The engine after \<open>Query\<close> has opened its cursor.\<close>

definition opened :: "Datastore \<Rightarrow> query \<Rightarrow> DB" where
  "opened d q = snd (NewIterWithContext (db d) (queryOpts q))"

definition keyAscending :: "Order \<Rightarrow> bool" where
  "keyAscending ord = (ord = OrderByKey \<or> ord = OrderByKeyPtr)"

definition keyDescending :: "Order \<Rightarrow> bool" where
  "keyDescending ord = (ord = OrderByKeyDescending \<or> ord = OrderByKeyDescendingPtr)"

definition nativeAscending :: "query \<Rightarrow> bool" where
  "nativeAscending q = (Orders q = [] \<or> (\<exists>ord. Orders q = [ord] \<and> keyAscending ord))"

definition nativeDescending :: "query \<Rightarrow> bool" where
  "nativeDescending q = (\<exists>ord. Orders q = [ord] \<and> keyDescending ord)"

definition scanned :: "Datastore \<Rightarrow> query \<Rightarrow> item list" where
  "scanned d q =
     (let xs = filter (\<lambda>x. in_bounds (queryOpts q) (ikey x)) (data (db d))
      in visit (if nativeDescending q then rev xs else xs))"

fun delivered :: "Results \<Rightarrow> Result list option" where
  "delivered (ResultsWithEntries q es) = Some (map ResultEntry es)"
| "delivered (ResultsWithProcess q rs) = Some rs"
| "delivered (ResultsReplaceQuery r q) = delivered r"
| "delivered (NaiveQueryApply q r) = None"

text \<open>
  A record is unreadable for a query when the query materialises values (it is not
  keys-only, or it returns sizes), reading the record's value fails, the engine
  reaches the record and a cursor on it reports no error of its own.
\<close>

definition unreadable :: "query \<Rightarrow> item \<Rightarrow> bool" where
  "unreadable q x =
     ((\<not> KeysOnly q \<or> ReturnsSizes q) \<and> isl (ival x) \<and> ierr x = None \<and> ifail x = None)"

definition withoutUnreadable :: "query \<Rightarrow> Datastore \<Rightarrow> Datastore" where
  "withoutUnreadable q d = d\<lparr>db := (db d)\<lparr>data := filter (\<lambda>x. \<not> unreadable q x) (data (db d))\<rparr>\<rparr>"

definition readable :: "query \<Rightarrow> item list \<times> outCh \<Rightarrow> item list \<times> outCh" where
  "readable q s = (filter (\<lambda>x. \<not> unreadable q x) (fst s), snd s)"

text \<open>
  Two engines that differ at most in where the cursor \<open>h\<close> stands and how often it was
  moved; the state a finished or interrupted loop leaves.
\<close>

definition sameBut :: "nat \<Rightarrow> DB \<Rightarrow> DB \<Rightarrow> bool" where
  "sameBut h eng eng1 =
     (data eng1 = data eng \<and> newIterErr eng1 = newIterErr eng \<and> writeErr eng1 = writeErr eng \<and>
      ncursors eng1 = ncursors eng \<and> flushes eng1 = flushes eng \<and> dbCloses eng1 = dbCloses eng \<and>
      (\<forall>k. k \<noteq> h \<longrightarrow> cursors eng1 k = cursors eng k) \<and>
      items (cursors eng1 h) = items (cursors eng h) \<and>
      closes (cursors eng1 h) = closes (cursors eng h))"

fun after :: "'a flow \<Rightarrow> 'a" where
  "after (Proceed s) = s"
| "after (Interrupted s) = s"

text \<open>One cursor closed once, the rest of the datastore as before.\<close>

definition closedOnce :: "nat \<Rightarrow> Datastore \<Rightarrow> Datastore \<Rightarrow> bool" where
  "closedOnce h d d1 =
     (wg d1 = wg d \<and> status d1 = status d \<and> closing d1 = closing d \<and>
      data (db d1) = data (db d) \<and> ncursors (db d1) = ncursors (db d) \<and>
      newIterErr (db d1) = newIterErr (db d) \<and>
      (\<forall>k. k \<noteq> h \<longrightarrow> cursors (db d1) k = cursors (db d) k) \<and>
      closes (cursors (db d1) h) = Suc (closes (cursors (db d) h)))"

text \<open>
  What \<open>Query\<close> owes the engine when it returns with its task finished: no streamer
  is left registered, the cursors that existed are untouched, and every cursor opened
  by the call has been closed exactly once.
\<close>

definition released :: "Datastore \<Rightarrow> Datastore \<Rightarrow> bool" where
  "released d d1 =
     (ncursors (db d) < ncursors (db d1) \<and> wg d1 = wg d \<and>
      newIterErr (db d1) = newIterErr (db d) \<and>
      (\<forall>h. h < ncursors (db d) \<longrightarrow> cursors (db d1) h = cursors (db d) h) \<and>
      (\<forall>h. ncursors (db d) \<le> h \<and> h < ncursors (db d1) \<longrightarrow> closes (cursors (db d1) h) = 1))"

section \<open>Example stores and queries\<close>

text \<open>
  The store of the spec's example, \<open>{"/a/1": "x", "/a/2": "y", "/b/1": "z"}\<close>, in a
  fresh datastore, and the query for the prefix \<open>"/a"\<close> against a consumer that
  receives everything.
\<close>

definition ex_item :: "bytes \<Rightarrow> bytes \<Rightarrow> item" where
  "ex_item k v = \<lparr>ikey = k, ival = Inr v, ierr = None, ifail = None\<rparr>"

definition ex_db :: "item list \<Rightarrow> DB" where
  "ex_db xs =
     \<lparr>data = xs, newIterErr = None, writeErr = None,
      cursors = (\<lambda>h. \<lparr>items = [], pos = - 1, moves = 0, closes = 0, failed = None\<rparr>),
      ncursors = 0, flushes = 0, dbCloses = 0\<rparr>"

definition ex_store :: "item list \<Rightarrow> Datastore" where
  "ex_store xs = \<lparr>db = ex_db xs, status = 0, closing = False, wg = 0, opts = \<lparr>DisableWAL = False\<rparr>\<rparr>"

definition ex_items :: "item list" where
  "ex_items =
     [ex_item [0x2f, 0x61, 0x2f, 0x31] [0x78],
      ex_item [0x2f, 0x61, 0x2f, 0x32] [0x79],
      ex_item [0x2f, 0x62, 0x2f, 0x31] [0x7a]]"

definition ex_query :: query where
  "ex_query =
     \<lparr>Prefix = [0x2f, 0x61], Filters = [], Orders = [], Limit = 0, Offset = 0,
      KeysOnly = False, ReturnExpirations = False, ReturnsSizes = False\<rparr>"

text \<open>
  The query for every key of the store that is not \<open>"/a/1"\<close>: the prefix \<open>"/"\<close> and one
  filter.
\<close>

definition ex_query_filtered :: query where
  "ex_query_filtered =
     \<lparr>Prefix = [0x2f], Filters = [\<lambda>e. Key e \<noteq> [0x2f, 0x61, 0x2f, 0x31]], Orders = [],
      Limit = 0, Offset = 0, KeysOnly = False, ReturnExpirations = False, ReturnsSizes = False\<rparr>"

definition ex_consumer :: consumer where
  "ex_consumer = \<lparr>demand = None, hears_close = False\<rparr>"

text \<open>
  The same store where the engine fails to reach \<open>"/a/2"\<close>, where a cursor on \<open>"/a/2"\<close>
  has an error pending, and with an unreadable \<open>"/a/1"\<close>.
\<close>

definition ex_items_scan_fails :: "item list" where
  "ex_items_scan_fails =
     [ex_item [0x2f, 0x61, 0x2f, 0x31] [0x78],
      \<lparr>ikey = [0x2f, 0x61, 0x2f, 0x32], ival = Inr [0x79], ierr = None,
         ifail = Some (EngineError 1)\<rparr>,
      ex_item [0x2f, 0x62, 0x2f, 0x31] [0x7a]]"

definition ex_items_error_pending :: "item list" where
  "ex_items_error_pending =
     [ex_item [0x2f, 0x61, 0x2f, 0x31] [0x78],
      \<lparr>ikey = [0x2f, 0x61, 0x2f, 0x32], ival = Inr [0x79], ierr = Some (EngineError 1),
         ifail = None\<rparr>,
      ex_item [0x2f, 0x62, 0x2f, 0x31] [0x7a]]"

definition ex_items_unreadable :: "item list" where
  "ex_items_unreadable =
     [\<lparr>ikey = [0x2f, 0x61, 0x2f, 0x31], ival = Inl (EngineError 2), ierr = None, ifail = None\<rparr>,
      ex_item [0x2f, 0x61, 0x2f, 0x32] [0x79],
      ex_item [0x2f, 0x62, 0x2f, 0x31] [0x7a]]"






text \<open>A consumer that receives one result and then cancels, and hears the closing error.\<close>

definition ex_leaving :: consumer where
  "ex_leaving = \<lparr>demand = Some 1, hears_close = True\<rparr>"

section \<open>Properties of the range bounds\<close>

lemma byte_less_succ: "b \<noteq> (0xff::byte) \<Longrightarrow> (k < b + 1) = (k \<le> b)"
proof -
  have ff: "(0xff::byte) = - 1" by simp
  assume "b \<noteq> 0xff"
  then have "b \<noteq> - 1" unfolding ff .
  then show ?thesis
    using inc_less_eq_iff verit_comp_simplify1(3) by blast
qed

lemma byte_not_above: "\<not> (0xff::byte) < k"
proof -
  have ff: "(0xff::byte) = - 1" by simp
  show ?thesis unfolding ff by simp
qed

lemma bytes_less_Nil2 [simp]: "\<not> bytes_less k []"
  by (cases k) simp_all

lemma upperLoop_update: "i < length p \<Longrightarrow> (take (Suc i) p)[i := c] = take i p @ [c]"
  by (simp add: take_Suc_conv_app_nth list_update_append)

lemma upperLoop_None: "\<forall>j<n. p ! j = 0xff \<Longrightarrow> upperLoop p n = None"
  by (induction n) simp_all

lemma upperLoop_Some:
  "n \<le> length p \<Longrightarrow> \<exists>j<n. p ! j \<noteq> 0xff \<Longrightarrow>
   \<exists>i<n. p ! i \<noteq> 0xff \<and> (\<forall>j. i < j \<and> j < n \<longrightarrow> p ! j = 0xff) \<and>
      upperLoop p n = Some (take i p @ [p ! i + 1])"
proof (induction n)
  case 0
  then show ?case by simp
next
  case (Suc n)
  show ?case
  proof (cases "p ! n = 0xff")
    case True
    with Suc.prems have "\<exists>j<n. p ! j \<noteq> 0xff"
      by (metis less_Suc_eq)
    with Suc obtain i where i: "i < n" "p ! i \<noteq> 0xff"
      "\<forall>j. i < j \<and> j < n \<longrightarrow> p ! j = 0xff" "upperLoop p n = Some (take i p @ [p ! i + 1])"
      by auto
    have "\<forall>j. i < j \<and> j < Suc n \<longrightarrow> p ! j = 0xff"
      using i(3) True by (auto simp: less_Suc_eq)
    with i True show ?thesis
      by (intro exI[of _ i]) (simp add: Let_def)
  next
    case False
    moreover have "\<forall>j. n < j \<and> j < Suc n \<longrightarrow> p ! j = 0xff" by auto
    ultimately show ?thesis using Suc.prems(1)
      by (intro exI[of _ n]) (simp add: Let_def upperLoop_update)
  qed
qed

lemma hasPrefix_all_ff:
  "\<forall>b\<in>set f. b = 0xff \<Longrightarrow> hasPrefix k f = bytes_le f k"
proof (induction f arbitrary: k)
  case Nil
  then show ?case by (cases k) (simp_all add: hasPrefix_def bytes_le_def)
next
  case (Cons a f)
  show ?case
  proof (cases k)
    case Nil
    then show ?thesis by (simp add: hasPrefix_def bytes_le_def)
  next
    case (Cons c ks)
    have "hasPrefix ks f = bytes_le f ks" using Cons.IH Cons.prems by simp
    moreover have "a = 0xff" using Cons.prems by simp
    ultimately show ?thesis using Cons byte_not_above[of c]
      by (auto simp: hasPrefix_def bytes_le_def)
  qed
qed

lemma prefix_range:
  assumes "b \<noteq> 0xff" "\<forall>x\<in>set f. x = 0xff"
  shows "hasPrefix k (a @ b # f) = (bytes_le (a @ b # f) k \<and> bytes_less k (a @ [b + 1]))"
proof (induction a arbitrary: k)
  case Nil
  show ?case
  proof (cases k)
    case Nil
    then show ?thesis by (simp add: hasPrefix_def bytes_le_def)
  next
    case (Cons c ks)
    have "hasPrefix ks f = bytes_le f ks" using assms(2) by (rule hasPrefix_all_ff)
    then show ?thesis using Cons byte_less_succ[OF assms(1), of c]
      by (auto simp: hasPrefix_def bytes_le_def)
  qed
next
  case (Cons x a)
  show ?case
  proof (cases k)
    case Nil
    then show ?thesis by (simp add: hasPrefix_def bytes_le_def)
  next
    case (Cons c ks)
    then show ?thesis using Cons.IH[of ks]
      by (auto simp: hasPrefix_def bytes_le_def)
  qed
qed


text \<open>
  Claim C1.  For every prefix \<open>P\<close>: when every byte of \<open>P\<close> is \<open>0xFF\<close> (the empty
  prefix included) there is no upper bound; otherwise the upper bound is \<open>P\<close> cut after
  its last byte \<open>P ! i\<close> that is not \<open>0xFF\<close>, with that byte incremented by one.  For
  every \<open>P\<close> with a byte other than \<open>0xFF\<close>, a key \<open>K\<close> has the prefix \<open>P\<close> exactly
  when \<open>P \<le> K < upper\<close> in the byte-lexicographic order.
\<close>

theorem upperBound_prefix_range:
  "(if \<forall>b\<in>set P. b = 0xff then upperBound P = None
    else \<exists>i<length P. P ! i \<noteq> 0xff \<and> (\<forall>j. i < j \<and> j < length P \<longrightarrow> P ! j = 0xff) \<and>
           upperBound P = Some (take i P @ [P ! i + 1])) \<and>
   ((\<exists>b\<in>set P. b \<noteq> 0xff) \<longrightarrow>
      (\<forall>K. hasPrefix K P = in_bounds \<lparr>LowerBound = P, UpperBound = upperBound P\<rparr> K))"
proof (cases "\<forall>b\<in>set P. b = 0xff")
  case True
  then have "\<forall>j<length P. P ! j = 0xff" by simp
  then have "upperBound P = None" unfolding upperBound_def by (rule upperLoop_None)
  with True show ?thesis by auto
next
  case False
  then have "\<exists>j<length P. P ! j \<noteq> 0xff" by (metis in_set_conv_nth)
  with upperLoop_Some[of "length P" P] obtain i where i: "i < length P" "P ! i \<noteq> 0xff"
    "\<forall>j. i < j \<and> j < length P \<longrightarrow> P ! j = 0xff" "upperBound P = Some (take i P @ [P ! i + 1])"
    unfolding upperBound_def by auto
  have split: "P = take i P @ P ! i # drop (Suc i) P"
    using i(1) by (simp add: id_take_nth_drop)
  have ffs: "\<forall>x\<in>set (drop (Suc i) P). x = 0xff"
  proof
    fix x assume "x \<in> set (drop (Suc i) P)"
    then obtain m where "m < length P - Suc i" "x = drop (Suc i) P ! m"
      by (auto simp: in_set_conv_nth)
    then show "x = 0xff" using i(3) by simp
  qed
  have rng: "hasPrefix K P = (bytes_le P K \<and> bytes_less K (take i P @ [P ! i + 1]))" for K
    using prefix_range[OF i(2) ffs, of K "take i P"] split by simp
  from False i rng show ?thesis by (auto simp: in_bounds_def)
qed

theorem upperBound_prefix_range_witness:
  "upperBound [0x2f, 0x61, 0xff] = Some [0x2f, 0x62] \<and>
   hasPrefix [0x2f, 0x61, 0xff, 0x31] [0x2f, 0x61, 0xff] =
     in_bounds \<lparr>LowerBound = [0x2f, 0x61, 0xff], UpperBound = upperBound [0x2f, 0x61, 0xff]\<rparr>
       [0x2f, 0x61, 0xff, 0x31] \<and>
   hasPrefix [0x2f, 0x61, 0xff, 0x31] [0x2f, 0x61, 0xff] \<and>
   hasPrefix [0x2f, 0x62] [0x2f, 0x61, 0xff] =
     in_bounds \<lparr>LowerBound = [0x2f, 0x61, 0xff], UpperBound = upperBound [0x2f, 0x61, 0xff]\<rparr>
       [0x2f, 0x62] \<and>
   \<not> hasPrefix [0x2f, 0x62] [0x2f, 0x61, 0xff]"
proof -
  have ne: "\<exists>b\<in>set [0x2f, 0x61, 0xff :: byte]. b \<noteq> 0xff" by simp
  have ub: "upperBound [0x2f, 0x61, 0xff] = Some [0x2f, 0x62]"
    by (simp add: upperBound_def numeral_3_eq_3 Let_def)
  from upperBound_prefix_range [of "[0x2f, 0x61, 0xff]"] ne
  have rng: "hasPrefix K [0x2f, 0x61, 0xff] =
      in_bounds \<lparr>LowerBound = [0x2f, 0x61, 0xff], UpperBound = upperBound [0x2f, 0x61, 0xff]\<rparr> K"
    for K by blast
  have yes: "hasPrefix [0x2f, 0x61, 0xff, 0x31] [0x2f, 0x61, 0xff :: byte]"
    by (simp add: hasPrefix_def)
  have no: "\<not> hasPrefix [0x2f, 0x62] [0x2f, 0x61, 0xff :: byte]"
    by (simp add: hasPrefix_def)
  show ?thesis
    using ub rng [of "[0x2f, 0x61, 0xff, 0x31]"] rng [of "[0x2f, 0x62]"] yes no by blast
qed

section \<open>The loops of the code compute the loops on the records ahead\<close>

lemma ahead_Nil: "\<not> valid it \<Longrightarrow> ahead mv it = []"
  by (simp add: ahead_def)

lemma stand_visit: "ifail x = None \<Longrightarrow> stand (x # xs) = visit (x # xs)"
  by simp

lemma arrive_outside:
  "\<not> (0 \<le> p \<and> p < int (length (items it))) \<Longrightarrow>
   arrive p it = it\<lparr>pos := p, moves := Suc (moves it)\<rparr>"
  by (auto simp: arrive_def Let_def inRange_def)

lemma arrive_reached:
  "0 \<le> p \<Longrightarrow> p < int (length (items it)) \<Longrightarrow> ifail (items it ! nat p) = None \<Longrightarrow>
   arrive p it = it\<lparr>pos := p, moves := Suc (moves it)\<rparr>"
  by (simp add: arrive_def Let_def inRange_def current_def)

lemma arrive_failed:
  "0 \<le> p \<Longrightarrow> p < int (length (items it)) \<Longrightarrow> ifail (items it ! nat p) = Some err \<Longrightarrow>
   arrive p it = it\<lparr>pos := p, moves := Suc (moves it), failed := Some err\<rparr>"
  by (simp add: arrive_def Let_def inRange_def current_def)

lemma ahead_stopped: "failed it \<noteq> None \<Longrightarrow> ahead mv it = []"
  by (auto simp: ahead_def valid_def)

lemma ahead_arrive_Next:
  assumes "failed it = None" "0 \<le> p"
  shows "ahead Next (arrive p it) = visit (drop (nat p) (items it))"
proof (cases "p < int (length (items it))")
  case False
  then show ?thesis
    using assms by (simp add: arrive_outside ahead_def valid_def inRange_def)
next
  case True
  then have d: "drop (nat p) (items it) = items it ! nat p # drop (Suc (nat p)) (items it)"
    using assms(2) by (simp add: Cons_nth_drop_Suc)
  show ?thesis
  proof (cases "ifail (items it ! nat p)")
    case None
    then show ?thesis
      using assms True d
      by (simp add: arrive_reached ahead_def valid_def inRange_def)
  next
    case (Some err)
    then show ?thesis
      using assms True d
      by (simp add: arrive_failed ahead_def valid_def)
  qed
qed

lemma ahead_arrive_Prev:
  assumes "failed it = None" "p < int (length (items it))"
  shows "ahead Prev (arrive p it) =
    visit (if 0 \<le> p then rev (take (Suc (nat p)) (items it)) else [])"
proof (cases "0 \<le> p")
  case False
  then show ?thesis
    using assms by (simp add: arrive_outside ahead_def valid_def inRange_def)
next
  case True
  then have lt: "nat p < length (items it)" using assms(2) by simp
  then have d: "rev (take (Suc (nat p)) (items it)) = items it ! nat p # rev (take (nat p) (items it))"
    by (simp add: take_Suc_conv_app_nth)
  show ?thesis
  proof (cases "ifail (items it ! nat p)")
    case None
    then show ?thesis
      using assms True d
      by (simp add: arrive_reached ahead_def valid_def inRange_def)
  next
    case (Some err)
    then show ?thesis
      using assms True d
      by (simp add: arrive_failed ahead_def valid_def)
  qed
qed

lemma ahead_Cons_Next:
  assumes "valid it"
  shows "ahead Next it = current it # ahead Next (advance 1 it)"
proof -
  define i where "i = nat (pos it)"
  have i: "i < length (items it)" "pos it = int i" "failed it = None" "inRange it"
    using assms by (auto simp: valid_def inRange_def i_def)
  have d: "drop i (items it) = items it ! i # drop (Suc i) (items it)"
    using i(1) by (simp add: Cons_nth_drop_Suc)
  show ?thesis
  proof (cases "ierr (current it)")
    case (Some err)
    then have "ahead Next (advance 1 it) = []"
      using i by (simp add: advance_def ahead_stopped)
    then show ?thesis
      using assms i d Some by (simp add: ahead_def current_def)
  next
    case None
    have "ahead Next (advance 1 it) = visit (drop (Suc i) (items it))"
      using None i ahead_arrive_Next [of it "pos it + 1"]
      by (simp add: advance_def nat_add_distrib)
    then show ?thesis
      using assms i d None by (simp add: ahead_def current_def)
  qed
qed

lemma ahead_Cons_Prev:
  assumes "valid it"
  shows "ahead Prev it = current it # ahead Prev (advance (- 1) it)"
proof -
  define i where "i = nat (pos it)"
  have i: "i < length (items it)" "pos it = int i" "failed it = None" "inRange it"
    using assms by (auto simp: valid_def inRange_def i_def)
  have d: "rev (take (Suc i) (items it)) = items it ! i # rev (take i (items it))"
    using i(1) by (simp add: take_Suc_conv_app_nth)
  show ?thesis
  proof (cases "ierr (current it)")
    case (Some err)
    then have "ahead Prev (advance (- 1) it) = []"
      using i by (simp add: advance_def ahead_stopped)
    then show ?thesis
      using assms i d Some by (simp add: ahead_def current_def)
  next
    case None
    have "ahead Prev (advance (- 1) it) =
        visit (if 0 \<le> int i - 1 then rev (take (Suc (nat (int i - 1))) (items it)) else [])"
      using None i ahead_arrive_Prev [of it "pos it - 1"]
      by (simp add: advance_def)
    moreover have "(if 0 \<le> int i - 1 then rev (take (Suc (nat (int i - 1))) (items it)) else []) =
        rev (take i (items it))"
      by (cases i) simp_all
    ultimately show ?thesis
      using assms i d None by (simp add: ahead_def current_def)
  qed
qed

lemma ahead_move:
  "iter_Valid h eng \<Longrightarrow>
   ahead mv (cursors eng h) = current (cursors eng h) # ahead mv (cursors (move mv h eng) h)"
  by (cases mv)
     (simp_all add: iter_Valid_def iter_Next_def iter_Prev_def iter_upd_def
        ahead_Cons_Next ahead_Cons_Prev)

lemma ahead_invalid: "\<not> iter_Valid h eng \<Longrightarrow> ahead mv (cursors eng h) = []"
  by (simp add: iter_Valid_def ahead_Nil)

lemma createEntry_itemEntry: "createEntry q h eng = itemEntry q (current (cursors eng h))"
  unfolding createEntry_def itemEntry_def iter_Key_def iter_ValueAndErr_def ..

lemma reportError_item:
  "iter_Valid h eng \<Longrightarrow> reportError h eng ch = reportItemError (current (cursors eng h)) ch"
  by (simp add: reportError_def reportItemError_def iter_Error_def iter_Valid_def valid_def)

lemma skipLoop_view:
  "map_flow (view mv h) (skipLoop q mv h skipped (eng, ch)) =
   skipList q skipped (ahead mv (cursors eng h)) ch"
proof (induction q mv h skipped "(eng, ch)" arbitrary: eng ch rule: skipLoop.induct)
  case (1 q mv h skipped eng ch)
  show ?case
  proof (cases "iter_Valid h eng")
    case False
    then show ?thesis
      by (simp add: skipLoop.simps [of q mv h skipped eng ch] ahead_invalid view_def)
  next
    case True
    note IH = "1.hyps"
    show ?thesis
    proof (cases "skipped < Offset q")
      case False
      with True show ?thesis
        by (simp add: skipLoop.simps [of q mv h skipped eng ch] ahead_move [OF True, of mv] view_def)
    next
      case lt: True
      show ?thesis
      proof (cases "reportError h eng ch")
        case (Interrupted ch1)
        with True lt show ?thesis
          using reportError_item [OF True, of ch]
          by (simp add: skipLoop.simps [of q mv h skipped eng ch] ahead_move [OF True, of mv] view_def)
      next
        case (Proceed ch1)
        show ?thesis
          using True lt Proceed reportError_item [OF True, of ch]
            IH(1) [of ch1] IH(2) [of ch1] IH(3) [of ch1]
          by (auto simp add: skipLoop.simps [of q mv h skipped eng ch] ahead_move [OF True, of mv]
              createEntry_itemEntry split: sum.splits)
      qed
    qed
  qed
qed

lemma sendLoop_view:
  "map_flow (view mv h) (sendLoop q mv h nsent (eng, ch)) =
   sendList q nsent (ahead mv (cursors eng h)) ch"
proof (induction q mv h nsent "(eng, ch)" arbitrary: eng ch rule: sendLoop.induct)
  case (1 q mv h nsent eng ch)
  show ?case
  proof (cases "iter_Valid h eng")
    case False
    then show ?thesis
      by (simp add: sendLoop.simps [of q mv h nsent eng ch] ahead_invalid view_def)
  next
    case True
    note IH = "1.hyps"
    show ?thesis
    proof (cases "Limit q \<le> 0 \<or> nsent < Limit q")
      case False
      with True show ?thesis
        by (simp add: sendLoop.simps [of q mv h nsent eng ch] ahead_move [OF True, of mv] view_def)
    next
      case lt: True
      show ?thesis
      proof (cases "reportError h eng ch")
        case (Interrupted ch1)
        with True lt show ?thesis
          using reportError_item [OF True, of ch]
          by (simp add: sendLoop.simps [of q mv h nsent eng ch] ahead_move [OF True, of mv] view_def)
      next
        case (Proceed ch1)
        show ?thesis
        proof (cases "createEntry q h eng")
          case (Inl err)
          then show ?thesis
            using True lt Proceed reportError_item [OF True, of ch] IH(1) [of ch1]
            by (simp add: sendLoop.simps [of q mv h nsent eng ch] ahead_move [OF True, of mv]
                createEntry_itemEntry)
        next
          case (Inr entry)
          show ?thesis
          proof (cases "doFilter q \<and> \<not> filterFn (Filters q) entry")
            case True
            then show ?thesis
              using \<open>iter_Valid h eng\<close> lt Proceed Inr reportError_item [OF \<open>iter_Valid h eng\<close>, of ch]
                IH(2) [of ch1 entry]
              by (simp add: sendLoop.simps [of q mv h nsent eng ch]
                  ahead_move [OF \<open>iter_Valid h eng\<close>, of mv] createEntry_itemEntry)
          next
            case False
            show ?thesis
            proof (cases "sendOrInterrupt (ResultEntry entry) ch1")
              case (Interrupted ch2)
              then show ?thesis
                using \<open>iter_Valid h eng\<close> lt Proceed Inr False
                  reportError_item [OF \<open>iter_Valid h eng\<close>, of ch]
                by (auto simp add: sendLoop.simps [of q mv h nsent eng ch]
                    ahead_move [OF \<open>iter_Valid h eng\<close>, of mv] createEntry_itemEntry view_def)
            next
              case P2: (Proceed ch2)
              then show ?thesis
                using \<open>iter_Valid h eng\<close> lt Proceed Inr False
                  reportError_item [OF \<open>iter_Valid h eng\<close>, of ch]
                  IH(3) [of ch1 entry ch2]
                by (auto simp add: sendLoop.simps [of q mv h nsent eng ch]
                    ahead_move [OF \<open>iter_Valid h eng\<close>, of mv] createEntry_itemEntry)
            qed
          qed
        qed
      qed
    qed
  qed
qed

section \<open>Offset and limit on the records ahead\<close>

lemma doFilter_redundant:
  "(doFilter q \<and> \<not> filterFn (Filters q) e) = (\<not> filterFn (Filters q) e)"
  by (cases "Filters q") (simp_all add: doFilter_def)

lemma filterFn_all: "filterFn fs e = (\<forall>f\<in>set fs. f e)"
  by (induction fs) auto

lemma matching_Nil [simp]: "matching q [] = []"
  by (simp add: matching_def)

lemma matching_Cons:
  "matching q (x # xs) =
     (case itemEntry q x of
        Inl err \<Rightarrow> matching q xs
      | Inr e \<Rightarrow> if filterFn (Filters q) e then e # matching q xs else matching q xs)"
  by (auto simp add: matching_def entryOpt_def filterFn_all split: sum.splits)

lemma entries_append [simp]: "entries (rs @ rs') = entries rs @ entries rs'"
  by (induction rs rule: entries.induct) simp_all

lemma send_None:
  "demand ch = None \<Longrightarrow> sendOrInterrupt r ch = Proceed (ch\<lparr>sent := sent ch @ [r]\<rparr>)"
  by (simp add: sendOrInterrupt_def)

lemma reportItemError_None:
  "demand ch = None \<Longrightarrow>
   \<exists>ch1. reportItemError x ch = Proceed ch1 \<and> demand ch1 = None \<and>
     entries (sent ch1) = entries (sent ch)"
  by (cases "ierr x") (simp_all add: reportItemError_def send_None)

lemma filterFn_fail_doFilter: "\<not> filterFn (Filters q) e \<Longrightarrow> doFilter q"
  by (cases "Filters q") (simp_all add: doFilter_def)

lemma skipList_None:
  "demand ch = None \<Longrightarrow>
   \<exists>rest ch1. skipList q skipped xs ch = Proceed (rest, ch1) \<and> demand ch1 = None \<and>
     entries (sent ch1) = entries (sent ch) \<and>
     matching q rest = drop (nat (Offset q - skipped)) (matching q xs)"
proof (induction xs arbitrary: skipped ch)
  case Nil
  then show ?case by simp
next
  case (Cons x xs)
  show ?case
  proof (cases "skipped < Offset q")
    case False
    with Cons.prems show ?thesis by simp
  next
    case True
    from reportItemError_None [OF Cons.prems, of x] obtain ch1 where
      ch1: "reportItemError x ch = Proceed ch1" "demand ch1 = None"
        "entries (sent ch1) = entries (sent ch)" by blast
    have stay: ?thesis if "skipList q skipped (x # xs) ch = skipList q skipped xs ch1"
      "matching q (x # xs) = matching q xs"
    proof -
      from Cons.IH [OF ch1(2), of skipped] obtain rest ch2 where
        "skipList q skipped xs ch1 = Proceed (rest, ch2)" "demand ch2 = None"
        "entries (sent ch2) = entries (sent ch1)"
        "matching q rest = drop (nat (Offset q - skipped)) (matching q xs)" by blast
      then show ?thesis using that ch1(3) by simp
    qed
    show ?thesis
    proof (cases "itemEntry q x")
      case (Inl err)
      show ?thesis
        by (rule stay) (simp_all add: True ch1 Inl matching_Cons)
    next
      case (Inr e)
      show ?thesis
      proof (cases "filterFn (Filters q) e")
        case False
        show ?thesis
          by (rule stay) (simp_all add: True ch1 Inr False filterFn_fail_doFilter [OF False] matching_Cons)
      next
        case pass: True
        have n: "nat (Offset q - skipped) = Suc (nat (Offset q - (skipped + 1)))"
          using True by simp
        from Cons.IH [OF ch1(2), of "skipped + 1"] obtain rest ch2 where
          "skipList q (skipped + 1) xs ch1 = Proceed (rest, ch2)" "demand ch2 = None"
          "entries (sent ch2) = entries (sent ch1)"
          "matching q rest = drop (nat (Offset q - (skipped + 1))) (matching q xs)" by blast
        then show ?thesis
          using True ch1 Inr pass n by (simp add: matching_Cons)
      qed
    qed
  qed
qed

lemma sendList_None:
  "demand ch = None \<Longrightarrow>
   \<exists>rest ch1. sendList q nsent xs ch = Proceed (rest, ch1) \<and> demand ch1 = None \<and>
     entries (sent ch1) = entries (sent ch) @
       (if Limit q \<le> 0 then matching q xs else take (nat (Limit q - nsent)) (matching q xs))"
proof (induction xs arbitrary: nsent ch)
  case Nil
  then show ?case by simp
next
  case (Cons x xs)
  show ?case
  proof (cases "Limit q \<le> 0 \<or> nsent < Limit q")
    case False
    with Cons.prems show ?thesis by simp
  next
    case True
    from reportItemError_None [OF Cons.prems, of x] obtain ch1 where
      ch1: "reportItemError x ch = Proceed ch1" "demand ch1 = None"
        "entries (sent ch1) = entries (sent ch)" by blast
    have stay: ?thesis if "sendList q nsent (x # xs) ch = sendList q nsent xs ch1"
      "matching q (x # xs) = matching q xs"
    proof -
      from Cons.IH [OF ch1(2), of nsent] obtain rest ch2 where
        "sendList q nsent xs ch1 = Proceed (rest, ch2)" "demand ch2 = None"
        "entries (sent ch2) = entries (sent ch1) @
          (if Limit q \<le> 0 then matching q xs else take (nat (Limit q - nsent)) (matching q xs))"
        by blast
      then show ?thesis using that ch1(3) by simp
    qed
    show ?thesis
    proof (cases "itemEntry q x")
      case (Inl err)
      show ?thesis
        by (rule stay) (use True in \<open>simp_all add: ch1 Inl matching_Cons\<close>)
    next
      case (Inr e)
      show ?thesis
      proof (cases "filterFn (Filters q) e")
        case False
        show ?thesis
          by (rule stay)
            (use True in \<open>simp_all add: ch1 Inr False filterFn_fail_doFilter [OF False] matching_Cons\<close>)
      next
        case pass: True
        let ?ch2 = "ch1\<lparr>sent := sent ch1 @ [ResultEntry e]\<rparr>"
        have s2: "sendOrInterrupt (ResultEntry e) ch1 = Proceed ?ch2"
          using ch1(2) by (rule send_None)
        have d2: "demand ?ch2 = None" using ch1(2) by simp
        from Cons.IH [OF d2, of "nsent + 1"] obtain rest ch3 where
          r: "sendList q (nsent + 1) xs ?ch2 = Proceed (rest, ch3)" "demand ch3 = None"
          "entries (sent ch3) = entries (sent ?ch2) @
            (if Limit q \<le> 0 then matching q xs
             else take (nat (Limit q - (nsent + 1))) (matching q xs))"
          by blast
        have step: "sendList q nsent (x # xs) ch = sendList q (nsent + 1) xs ?ch2"
          using True ch1 Inr pass s2 by simp
        show ?thesis
        proof (cases "Limit q \<le> 0")
          case True
          then show ?thesis using step r ch1(3) pass Inr by (simp add: matching_Cons)
        next
          case False
          then have "nat (Limit q - nsent) = Suc (nat (Limit q - (nsent + 1)))"
            using True by simp
          then show ?thesis using False step r ch1(3) pass Inr by (simp add: matching_Cons)
        qed
      qed
    qed
  qed
qed

lemma taskList_None:
  assumes "demand c = None"
  shows "entries (taskList q xs c) =
     (if Limit q \<le> 0 then drop (nat (Offset q)) (matching q xs)
      else take (nat (Limit q)) (drop (nat (Offset q)) (matching q xs)))"
proof -
  have d0: "demand (newChan c) = None" using assms by (simp add: newChan_def)
  from skipList_None [OF d0, of q 0 xs] obtain rest ch1 where
    sk: "skipList q 0 xs (newChan c) = Proceed (rest, ch1)" "demand ch1 = None"
      "entries (sent ch1) = entries (sent (newChan c))"
      "matching q rest = drop (nat (Offset q)) (matching q xs)" by auto
  from sendList_None [OF sk(2), of q 0 rest] obtain rest1 ch2 where
    se: "sendList q 0 rest ch1 = Proceed (rest1, ch2)"
      "entries (sent ch2) = entries (sent ch1) @
       (if Limit q \<le> 0 then matching q rest else take (nat (Limit q)) (matching q rest))"
    by auto
  show ?thesis using sk se by (simp add: taskList_def newChan_def)
qed

section \<open>What a native query delivers\<close>

lemma streamTask_sent:
  "sent (snd (streamTask q mv h (eng, newChan c))) = taskList q (ahead mv (cursors eng h)) c"
proof (cases "skipLoop q mv h 0 (eng, newChan c)")
  case (Interrupted s1)
  obtain eng1 ch1 where s1: "s1 = (eng1, ch1)" by (cases s1)
  from skipLoop_view [of mv h q 0 eng "newChan c"] Interrupted s1
  have "skipList q 0 (ahead mv (cursors eng h)) (newChan c) =
      Interrupted (ahead mv (cursors eng1 h), ch1)"
    by (simp add: view_def)
  with Interrupted s1 show ?thesis
    by (simp add: streamTask_def taskList_def)
next
  case (Proceed s1)
  obtain eng1 ch1 where s1: "s1 = (eng1, ch1)" by (cases s1)
  from skipLoop_view [of mv h q 0 eng "newChan c"] Proceed s1
  have sk: "skipList q 0 (ahead mv (cursors eng h)) (newChan c) =
      Proceed (ahead mv (cursors eng1 h), ch1)"
    by (simp add: view_def)
  show ?thesis
  proof (cases "sendLoop q mv h 0 (eng1, ch1)")
    case I2: (Interrupted s2)
    obtain eng2 ch2 where s2: "s2 = (eng2, ch2)" by (cases s2)
    from sendLoop_view [of mv h q 0 eng1 ch1] I2 s2
    have "sendList q 0 (ahead mv (cursors eng1 h)) ch1 =
        Interrupted (ahead mv (cursors eng2 h), ch2)"
      by (simp add: view_def)
    with Proceed s1 sk I2 s2 show ?thesis
      by (simp add: streamTask_def taskList_def)
  next
    case P2: (Proceed s2)
    obtain eng2 ch2 where s2: "s2 = (eng2, ch2)" by (cases s2)
    from sendLoop_view [of mv h q 0 eng1 ch1] P2 s2
    have "sendList q 0 (ahead mv (cursors eng1 h)) ch1 =
        Proceed (ahead mv (cursors eng2 h), ch2)"
      by (simp add: view_def)
    with Proceed s1 sk P2 s2 show ?thesis
      by (simp add: streamTask_def taskList_def)
  qed
qed

lemma taskList_Nil: "taskList q [] c = []"
  by (simp add: taskList_def newChan_def)

lemma streamResults_delivered:
  "\<exists>res. fst (streamResults d q c h mv) = Inr res \<and>
     delivered res = Some (taskList q (ahead mv (cursors (db d) h)) c)"
proof (cases "iter_Valid h (db d)")
  case False
  then show ?thesis
    by (simp add: streamResults_def ahead_invalid taskList_Nil)
next
  case True
  obtain eng1 ch1 where st: "streamTask q mv h (db d, newChan c) = (eng1, ch1)"
    by (cases "streamTask q mv h (db d, newChan c)")
  with streamTask_sent [of q mv h "db d" c]
  have "sent ch1 = taskList q (ahead mv (cursors (db d) h)) c" by simp
  with True st show ?thesis
    by (simp add: streamResults_def Let_def)
qed

lemma ahead_First:
  "failed (cursors eng h) = None \<Longrightarrow>
   ahead Next (cursors (iter_First h eng) h) = visit (items (cursors eng h))"
  using ahead_arrive_Next [of "cursors eng h" 0]
  by (simp add: iter_First_def iter_upd_def)

lemma ahead_Last:
  "failed (cursors eng h) = None \<Longrightarrow>
   ahead Prev (cursors (iter_Last h eng) h) = visit (rev (items (cursors eng h)))"
proof (cases "items (cursors eng h) = []")
  case True
  assume "failed (cursors eng h) = None"
  then show ?thesis
    using True ahead_arrive_Prev [of "cursors eng h" "- 1"]
    by (simp add: iter_Last_def iter_upd_def)
next
  case False
  assume f: "failed (cursors eng h) = None"
  have n: "Suc (nat (int (length (items (cursors eng h))) - 1)) = length (items (cursors eng h))"
    using False by (cases "items (cursors eng h)") simp_all
  show ?thesis
    using False f n ahead_arrive_Prev [of "cursors eng h" "int (length (items (cursors eng h))) - 1"]
    by (simp add: iter_Last_def iter_upd_def)
qed

lemma queryOpts_unfold:
  "(let prefix0 = NewKey_String (Prefix q);
        prefix = (if prefix0 \<noteq> [slash] then prefix0 @ [slash] else prefix0);
        iopts = \<lparr>LowerBound = prefix, UpperBound = upperBound prefix\<rparr>
    in f iopts) = f (queryOpts q)"
  by (simp add: queryOpts_def Let_def)

lemma Query_unfold:
  "Query d q c =
     (case NewIterWithContext (db d) (queryOpts q) of
           (Inl err, eng) \<Rightarrow> (Inl err, d\<lparr>db := eng\<rparr>)
         | (Inr iter, eng) \<Rightarrow>
             (let d1 = d\<lparr>db := eng\<rparr>; l = length (Orders q) in
              if l = 0 then streamResults (d1\<lparr>db := iter_First iter eng\<rparr>) q c iter Next
              else if l = 1 then
                (case Orders q ! 0 of
                   OrderByKey \<Rightarrow> streamResults (d1\<lparr>db := iter_First iter eng\<rparr>) q c iter Next
                 | OrderByKeyPtr \<Rightarrow> streamResults (d1\<lparr>db := iter_First iter eng\<rparr>) q c iter Next
                 | OrderByKeyDescending \<Rightarrow>
                     streamResults (d1\<lparr>db := iter_Last iter eng\<rparr>) q c iter Prev
                 | OrderByKeyDescendingPtr \<Rightarrow>
                     streamResults (d1\<lparr>db := iter_Last iter eng\<rparr>) q c iter Prev
                 | OtherOrder cmp \<Rightarrow>
                     (case inefficientOrderQuery d1 q None c of
                        (r, d2) \<Rightarrow> (r, d2\<lparr>db := iter_Close iter (db d2)\<rparr>)))
              else
                (case orderLoop (Orders q) None of
                   Inl err \<Rightarrow> (Inl err, d1)
                 | Inr baseOrder \<Rightarrow>
                     (case inefficientOrderQuery d1 q baseOrder c of
                        (r, d2) \<Rightarrow> (r, d2\<lparr>db := iter_Close iter (db d2)\<rparr>)))))"
  unfolding Query.simps [of d q c] by (rule queryOpts_unfold)

lemma NewIter_ok:
  "newIterErr (db d) = None \<Longrightarrow>
   NewIterWithContext (db d) (queryOpts q) = (Inr (ncursors (db d)), opened d q)"
  by (simp add: NewIterWithContext_def opened_def)

lemma opened_items:
  "newIterErr (db d) = None \<Longrightarrow>
   items (cursors (opened d q) (ncursors (db d))) =
     filter (\<lambda>x. in_bounds (queryOpts q) (ikey x)) (data (db d)) \<and>
   failed (cursors (opened d q) (ncursors (db d))) = None"
  by (simp add: NewIterWithContext_def opened_def)

lemma Query_native_ascending:
  assumes "newIterErr (db d) = None" "nativeAscending q"
  shows "Query d q c =
    streamResults (d\<lparr>db := iter_First (ncursors (db d)) (opened d q)\<rparr>) q c (ncursors (db d)) Next"
  using assms(2)
  by (auto simp add: Query_unfold NewIter_ok [OF assms(1)] nativeAscending_def keyAscending_def)

lemma Query_native_descending:
  assumes "newIterErr (db d) = None" "nativeDescending q"
  shows "Query d q c =
    streamResults (d\<lparr>db := iter_Last (ncursors (db d)) (opened d q)\<rparr>) q c (ncursors (db d)) Prev"
  using assms(2)
  by (auto simp add: Query_unfold NewIter_ok [OF assms(1)] nativeDescending_def keyDescending_def)

lemma native_exclusive: "nativeAscending q \<Longrightarrow> \<not> nativeDescending q"
  by (auto simp: nativeAscending_def nativeDescending_def keyAscending_def keyDescending_def)

lemma Query_native_delivered:
  assumes "newIterErr (db d) = None" "nativeAscending q \<or> nativeDescending q"
  shows "\<exists>res. fst (Query d q c) = Inr res \<and> delivered res = Some (taskList q (scanned d q) c)"
proof (cases "nativeDescending q")
  case True
  have "ahead Prev (cursors (iter_Last (ncursors (db d)) (opened d q)) (ncursors (db d))) = scanned d q"
    using True by (simp add: ahead_Last opened_items [OF assms(1)] scanned_def)
  with streamResults_delivered
    [of "d\<lparr>db := iter_Last (ncursors (db d)) (opened d q)\<rparr>" q c "ncursors (db d)" Prev]
  show ?thesis
    by (simp add: Query_native_descending [OF assms(1) True])
next
  case False
  with assms(2) have asc: "nativeAscending q" by blast
  have "ahead Next (cursors (iter_First (ncursors (db d)) (opened d q)) (ncursors (db d))) = scanned d q"
    using False by (simp add: ahead_First opened_items [OF assms(1)] scanned_def)
  with streamResults_delivered
    [of "d\<lparr>db := iter_First (ncursors (db d)) (opened d q)\<rparr>" q c "ncursors (db d)" Next]
  show ?thesis
    by (simp add: Query_native_ascending [OF assms(1) asc])
qed

section \<open>Evaluating the examples\<close>

text \<open>Facts that evaluate the example queries.\<close>

lemmas ex_defs = ex_store_def ex_db_def ex_items_def ex_item_def ex_query_def ex_query_filtered_def ex_consumer_def
  ex_items_scan_fails_def ex_items_error_pending_def ex_items_unreadable_def

lemmas open_defs = queryOpts_def NewKey_String_def path_Clean_def slash_def dot_def
  upperBound_def Let_def numeral_3_eq_3 NewIterWithContext_def in_bounds_def bytes_le_def

lemmas start_defs = streamResults_def iter_First_def iter_Last_def iter_upd_def iter_Valid_def
  valid_def inRange_def arrive_def current_def Let_def streamTask_def newChan_def

lemmas loop_defs = skipLoop.simps sendLoop.simps iter_Valid_def valid_def inRange_def
  reportError_def iter_Error_def current_def sendOrInterrupt_def createEntry_def iter_Key_def
  iter_ValueAndErr_def doFilter_def iter_Next_def iter_Prev_def iter_upd_def iter_Close_def
  arrive_def advance_def Let_def

section \<open>A negative limit\<close>

lemma itemEntry_alt:
  "itemEntry q x =
     (if \<not> KeysOnly q \<or> ReturnsSizes q then
        (case ival x of
           Inl err \<Rightarrow> Inl err
         | Inr val \<Rightarrow>
             Inr \<lparr>Key = ikey x, Value = (if KeysOnly q then None else Some val),
                  Size = (if ReturnsSizes q then int (length val) else 0)\<rparr>)
      else Inr \<lparr>Key = ikey x, Value = None, Size = 0\<rparr>)"
  by (auto simp: itemEntry_def Let_def split: sum.splits)











section \<open>Offset and limit of a native query\<close>

lemma itemEntry_paging: "itemEntry (q\<lparr>Offset := k, Limit := n\<rparr>) x = itemEntry q x"
  by (simp add: itemEntry_alt split: sum.splits)

lemma entryOpt_paging: "entryOpt (q\<lparr>Offset := k, Limit := n\<rparr>) = entryOpt q"
  by (rule ext) (simp add: entryOpt_def itemEntry_paging)

lemma matching_paging: "matching (q\<lparr>Offset := k, Limit := n\<rparr>) xs = matching q xs"
  by (simp add: matching_def entryOpt_paging)

lemma scanned_paging: "scanned d (q\<lparr>Offset := k, Limit := n\<rparr>) = scanned d q"
  by (simp add: scanned_def queryOpts_def nativeDescending_def)

lemma native_paging:
  "nativeAscending q \<or> nativeDescending q \<Longrightarrow>
   nativeAscending (q\<lparr>Offset := k, Limit := n\<rparr>) \<or> nativeDescending (q\<lparr>Offset := k, Limit := n\<rparr>)"
  by (simp add: nativeAscending_def nativeDescending_def)

text \<open>
  Claim C5.  For a query the engine orders itself (no order, or one key order), a
  consumer that receives everything, an offset \<open>k \<ge> 0\<close> and a limit \<open>n > 0\<close>: the
  entries delivered are those at the positions \<open>[k, k + n)\<close> of what the same query
  delivers with offset 0 and no limit, and that is the filtered sequence of the
  records scanned: the entries that every filter of the query accepts, in the order of
  the scan.  An entry that some filter rejects is not in that sequence, so it takes no
  offset slot.  In the example the filter rejects \<open>"/a/1"\<close>, the first key of the
  scan; with offset 1 and limit 1 the query delivers \<open>"/b/1"\<close>, the second of the two
  keys that pass, and not \<open>"/a/2"\<close>.
\<close>

theorem Query_offset_limit:
  assumes "newIterErr (db d) = None"
    and "nativeAscending q \<or> nativeDescending q"
    and "demand c = None"
    and "0 \<le> k" and "0 < n"
  shows "\<exists>res rs all as.
    fst (Query d (q\<lparr>Offset := k, Limit := n\<rparr>) c) = Inr res \<and> delivered res = Some rs \<and>
    fst (Query d (q\<lparr>Offset := 0, Limit := 0\<rparr>) c) = Inr all \<and> delivered all = Some as \<and>
    entries as =
      filter (\<lambda>e. \<forall>f\<in>set (Filters q). f e) (List.map_filter (entryOpt q) (scanned d q)) \<and>
    entries rs = take (nat n) (drop (nat k) (entries as))"
proof -
  from Query_native_delivered [OF assms(1) native_paging [OF assms(2), where k = k and n = n],
      where c = c]
  obtain res where res: "fst (Query d (q\<lparr>Offset := k, Limit := n\<rparr>) c) = Inr res"
    "delivered res = Some (taskList (q\<lparr>Offset := k, Limit := n\<rparr>) (scanned d q) c)"
    by (auto simp: scanned_paging)
  from Query_native_delivered [OF assms(1) native_paging [OF assms(2), where k = 0 and n = 0],
      where c = c]
  obtain all where all: "fst (Query d (q\<lparr>Offset := 0, Limit := 0\<rparr>) c) = Inr all"
    "delivered all = Some (taskList (q\<lparr>Offset := 0, Limit := 0\<rparr>) (scanned d q) c)"
    by (auto simp: scanned_paging)
  have e1: "entries (taskList (q\<lparr>Offset := 0, Limit := 0\<rparr>) (scanned d q) c) =
      matching q (scanned d q)"
    by (simp add: taskList_None [OF assms(3)] matching_paging)
  have e2: "entries (taskList (q\<lparr>Offset := k, Limit := n\<rparr>) (scanned d q) c) =
      take (nat n) (drop (nat k) (matching q (scanned d q)))"
    using assms(5) by (simp add: taskList_None [OF assms(3)] matching_paging)
  have e3: "matching q (scanned d q) =
      filter (\<lambda>e. \<forall>f\<in>set (Filters q). f e) (List.map_filter (entryOpt q) (scanned d q))"
    by (simp add: matching_def)
  show ?thesis using res all e1 e2 e3 by simp
qed

theorem Query_offset_limit_witness:
  "newIterErr (db (ex_store ex_items)) = None \<and>
   nativeAscending ex_query_filtered \<and>
   demand ex_consumer = None \<and> (0 :: int) \<le> 1 \<and> (0 :: int) < 1 \<and>
   (\<exists>res rs all as.
      fst (Query (ex_store ex_items) (ex_query_filtered\<lparr>Offset := 1, Limit := 1\<rparr>) ex_consumer) =
        Inr res \<and> delivered res = Some rs \<and>
      fst (Query (ex_store ex_items) (ex_query_filtered\<lparr>Offset := 0, Limit := 0\<rparr>) ex_consumer) =
        Inr all \<and> delivered all = Some as \<and>
      entries as =
        filter (\<lambda>e. \<forall>f\<in>set (Filters ex_query_filtered). f e)
          (List.map_filter (entryOpt ex_query_filtered)
             (scanned (ex_store ex_items) ex_query_filtered)) \<and>
      entries rs = take (nat 1) (drop (nat 1) (entries as))) \<and>
   fst (Query (ex_store ex_items) (ex_query_filtered\<lparr>Offset := 0, Limit := 0\<rparr>) ex_consumer) =
     Inr (ResultsWithProcess (ex_query_filtered\<lparr>Offset := 0, Limit := 0\<rparr>)
       [ResultEntry \<lparr>Key = [0x2f, 0x61, 0x2f, 0x32], Value = Some [0x79], Size = 0\<rparr>,
        ResultEntry \<lparr>Key = [0x2f, 0x62, 0x2f, 0x31], Value = Some [0x7a], Size = 0\<rparr>]) \<and>
   fst (Query (ex_store ex_items) (ex_query_filtered\<lparr>Offset := 1, Limit := 1\<rparr>) ex_consumer) =
     Inr (ResultsWithProcess (ex_query_filtered\<lparr>Offset := 1, Limit := 1\<rparr>)
       [ResultEntry \<lparr>Key = [0x2f, 0x62, 0x2f, 0x31], Value = Some [0x7a], Size = 0\<rparr>])"
proof -
  have h1: "newIterErr (db (ex_store ex_items)) = None" by (simp add: ex_defs)
  have h2: "nativeAscending ex_query_filtered \<or> nativeDescending ex_query_filtered"
    by (simp add: nativeAscending_def ex_query_filtered_def)
  have h3: "demand ex_consumer = None" by (simp add: ex_defs)
  have all: "fst (Query (ex_store ex_items) (ex_query_filtered\<lparr>Offset := 0, Limit := 0\<rparr>)
       ex_consumer) =
     Inr (ResultsWithProcess (ex_query_filtered\<lparr>Offset := 0, Limit := 0\<rparr>)
       [ResultEntry \<lparr>Key = [0x2f, 0x61, 0x2f, 0x32], Value = Some [0x79], Size = 0\<rparr>,
        ResultEntry \<lparr>Key = [0x2f, 0x62, 0x2f, 0x31], Value = Some [0x7a], Size = 0\<rparr>])"
    apply (simp add: Query_unfold)
    apply (simp add: ex_defs open_defs)
    apply (simp add: start_defs)
    apply (simp add: loop_defs)
    done
  have run: "fst (Query (ex_store ex_items) (ex_query_filtered\<lparr>Offset := 1, Limit := 1\<rparr>)
       ex_consumer) =
     Inr (ResultsWithProcess (ex_query_filtered\<lparr>Offset := 1, Limit := 1\<rparr>)
       [ResultEntry \<lparr>Key = [0x2f, 0x62, 0x2f, 0x31], Value = Some [0x7a], Size = 0\<rparr>])"
    apply (simp add: Query_unfold)
    apply (simp add: ex_defs open_defs)
    apply (simp add: start_defs)
    apply (simp add: loop_defs)
    done
  have h2n: "nativeAscending ex_query_filtered"
    by (simp add: nativeAscending_def ex_query_filtered_def)
  have ex: "\<exists>res rs all as.
      fst (Query (ex_store ex_items) (ex_query_filtered\<lparr>Offset := 1, Limit := 1\<rparr>) ex_consumer) =
        Inr res \<and> delivered res = Some rs \<and>
      fst (Query (ex_store ex_items) (ex_query_filtered\<lparr>Offset := 0, Limit := 0\<rparr>) ex_consumer) =
        Inr all \<and> delivered all = Some as \<and>
      entries as =
        filter (\<lambda>e. \<forall>f\<in>set (Filters ex_query_filtered). f e)
          (List.map_filter (entryOpt ex_query_filtered)
             (scanned (ex_store ex_items) ex_query_filtered)) \<and>
      entries rs = take (nat 1) (drop (nat 1) (entries as))"
    using Query_offset_limit [OF h1 h2 h3, where k = 1 and n = 1] by simp
  note parts = h1 h2n h3 ex all run
  show ?thesis by (intro conjI parts) simp_all
qed

section \<open>The planner\<close>

lemma orderLoop_Some:
  "orderLoop ords (Some b) = (if ords = [] then Inr (Some b) else Inl ErrIncompatibleOrders)"
  by (cases ords) simp_all

lemma orderLoop_None:
  "orderLoop ords None =
     (if \<exists>ord\<in>set (butlast ords). isKeyOrder ord then Inl ErrIncompatibleOrders
      else Inr (if ords \<noteq> [] \<and> isKeyOrder (last ords) then Some (last ords) else None))"
proof (induction ords)
  case Nil
  then show ?case by simp
next
  case (Cons ord ords)
  then show ?case by (auto simp: orderLoop_Some)
qed

lemma key_orders: "keyAscending ord \<Longrightarrow> isKeyOrder ord" "keyDescending ord \<Longrightarrow> isKeyOrder ord"
  "keyAscending ord \<Longrightarrow> \<not> keyDescending ord"
  by (auto simp: keyAscending_def keyDescending_def)

lemma conflicting_butlast:
  assumes "a \<in> set ords" "keyAscending a" "b \<in> set ords" "keyDescending b"
  shows "(\<exists>ord\<in>set (butlast ords). isKeyOrder ord) \<and> 2 \<le> length ords"
proof -
  have ne: "ords \<noteq> []" using assms(1) by auto
  then have split: "ords = butlast ords @ [last ords]" by simp
  have "a \<noteq> b" using assms(2,4) key_orders(3) by blast
  have "a \<in> set (butlast ords) \<or> b \<in> set (butlast ords)"
  proof (rule ccontr)
    assume "\<not> ?thesis"
    then have "a \<notin> set (butlast ords)" "b \<notin> set (butlast ords)" by auto
    moreover have "set (butlast ords @ [last ords]) = set (butlast ords) \<union> {last ords}"
      by simp
    then have "set ords = set (butlast ords) \<union> {last ords}"
      using ne by simp
    ultimately have "a = last ords" "b = last ords" using assms(1,3) by auto
    with \<open>a \<noteq> b\<close> show False by simp
  qed
  then have ex: "\<exists>ord\<in>set (butlast ords). isKeyOrder ord"
    using assms(2,4) key_orders(1,2) by blast
  then have "butlast ords \<noteq> []" by auto
  then have "2 \<le> length ords" using ne by (cases ords) (auto simp: Suc_le_eq)
  with ex show ?thesis by simp
qed

lemma opened_frame:
  "newIterErr (db d) = None \<Longrightarrow>
   data (opened d q) = data (db d) \<and> ncursors (opened d q) = Suc (ncursors (db d)) \<and>
   newIterErr (opened d q) = None \<and>
   (\<forall>h. h \<noteq> ncursors (db d) \<longrightarrow> cursors (opened d q) h = cursors (db d) h) \<and>
   moves (cursors (opened d q) (ncursors (db d))) = 0 \<and>
   closes (cursors (opened d q) (ncursors (db d))) = 0"
  by (simp add: opened_def NewIterWithContext_def)

lemma Query_plan_error:
  assumes "newIterErr (db d) = None" "2 \<le> length (Orders q)"
    "\<exists>ord\<in>set (butlast (Orders q)). isKeyOrder ord"
  shows "Query d q c = (Inl ErrIncompatibleOrders, d\<lparr>db := opened d q\<rparr>)"
proof -
  have l: "length (Orders q) \<noteq> 0" "length (Orders q) \<noteq> Suc 0" using assms(2) by auto
  have "orderLoop (Orders q) None = Inl ErrIncompatibleOrders"
    using assms(3) by (simp add: orderLoop_None)
  then show ?thesis
    unfolding Query_unfold NewIter_ok [OF assms(1)] by (simp add: l Let_def del: length_0_conv)
qed

lemma Query_no_cursor:
  assumes "newIterErr (db d) = Some err"
  shows "Query d q c = (Inl err, d)"
  using assms by (simp add: Query_unfold NewIterWithContext_def)

text \<open>
  Claim C6.  When the orders of a query hold an ascending and a descending key order,
  \<open>Query\<close> returns an error and no results: the incompatible-orders error whenever
  the engine hands out the cursor.  No streamer is registered, the records and the
  cursors that existed are untouched, and the cursor that was opened has not been
  positioned or moved.
\<close>

theorem conflicting_orders_rejected:
  assumes "\<exists>a\<in>set (Orders q). keyAscending a" and "\<exists>b\<in>set (Orders q). keyDescending b"
  shows "(\<exists>err. fst (Query d q c) = Inl err) \<and>
    (newIterErr (db d) = None \<longrightarrow> fst (Query d q c) = Inl ErrIncompatibleOrders) \<and>
    wg (snd (Query d q c)) = wg d \<and>
    data (db (snd (Query d q c))) = data (db d) \<and>
    (\<forall>h. h < ncursors (db d) \<longrightarrow> cursors (db (snd (Query d q c))) h = cursors (db d) h) \<and>
    (\<forall>h. ncursors (db d) \<le> h \<and> h < ncursors (db (snd (Query d q c))) \<longrightarrow>
       moves (cursors (db (snd (Query d q c))) h) = 0)"
proof (cases "newIterErr (db d)")
  case (Some err)
  then show ?thesis by (simp add: Query_no_cursor)
next
  case None
  from assms obtain a b where "a \<in> set (Orders q)" "keyAscending a"
    "b \<in> set (Orders q)" "keyDescending b" by blast
  then have "(\<exists>ord\<in>set (butlast (Orders q)). isKeyOrder ord) \<and> 2 \<le> length (Orders q)"
    by (rule conflicting_butlast)
  then have "Query d q c = (Inl ErrIncompatibleOrders, d\<lparr>db := opened d q\<rparr>)"
    using Query_plan_error [OF None] by blast
  then show ?thesis
    using opened_frame [OF None, of q] by (auto simp: less_Suc_eq)
qed

theorem conflicting_orders_rejected_witness:
  "(\<exists>a\<in>set (Orders (ex_query\<lparr>Orders := [OrderByKey, OtherOrder 0, OrderByKeyDescending]\<rparr>)).
      keyAscending a) \<and>
   (\<exists>b\<in>set (Orders (ex_query\<lparr>Orders := [OrderByKey, OtherOrder 0, OrderByKeyDescending]\<rparr>)).
      keyDescending b) \<and>
   newIterErr (db (ex_store ex_items)) = None \<and>
   fst (Query (ex_store ex_items)
     (ex_query\<lparr>Orders := [OrderByKey, OtherOrder 0, OrderByKeyDescending]\<rparr>) ex_consumer) =
     Inl ErrIncompatibleOrders"
proof -
  let ?q = "ex_query\<lparr>Orders := [OrderByKey, OtherOrder 0, OrderByKeyDescending]\<rparr>"
  have a: "\<exists>a\<in>set (Orders ?q). keyAscending a" by (simp add: keyAscending_def)
  have b: "\<exists>b\<in>set (Orders ?q). keyDescending b" by (simp add: keyDescending_def)
  have n: "newIterErr (db (ex_store ex_items)) = None" by (simp add: ex_defs)
  from conflicting_orders_rejected [OF a b, of "ex_store ex_items" ex_consumer] n
  have "fst (Query (ex_store ex_items) ?q ex_consumer) = Inl ErrIncompatibleOrders" by blast
  with a b n show ?thesis by blast
qed

lemma Query_native_Inr:
  assumes "newIterErr (db d) = None" "nativeAscending q \<or> nativeDescending q"
  shows "\<exists>res. Query d q c = (Inr res, snd (Query d q c))"
proof -
  from Query_native_delivered [OF assms, of c] obtain res where "fst (Query d q c) = Inr res"
    by blast
  then show ?thesis by (metis prod.collapse)
qed

lemma base_native:
  "nativeAscending (q\<lparr>Limit := 0, Offset := 0, Orders := []\<rparr>)"
  "isKeyOrder ord \<Longrightarrow>
     nativeAscending (q\<lparr>Limit := 0, Offset := 0, Orders := [ord]\<rparr>) \<or>
     nativeDescending (q\<lparr>Limit := 0, Offset := 0, Orders := [ord]\<rparr>)"
  by (cases ord; simp add: nativeAscending_def nativeDescending_def keyAscending_def keyDescending_def)+

lemma Query_fallback:
  assumes "newIterErr (db d) = None" "2 \<le> length (Orders q)"
    "orderLoop (Orders q) None = Inr baseOrder"
  shows "Query d q c =
    (case inefficientOrderQuery (d\<lparr>db := opened d q\<rparr>) q baseOrder c of
       (r, d2) \<Rightarrow> (r, d2\<lparr>db := iter_Close (ncursors (db d)) (db d2)\<rparr>))"
proof -
  have l: "length (Orders q) \<noteq> 0" "length (Orders q) \<noteq> Suc 0" using assms(2) by auto
  show ?thesis
    unfolding Query_unfold NewIter_ok [OF assms(1)]
    by (simp add: l assms(3) Let_def del: length_0_conv)
qed

text \<open>
  Claim C2, amended.  For a query with at least two orders whose only key order, if
  it has one, is its last order, and an engine that hands out its cursors: the loop
  over the orders reports no error and yields that key order as the base order (none
  if the last order is no key order); \<open>Query\<close> runs the restricted query (no limit,
  no offset, the base order alone) and returns its results, with the query put back,
  under the in-memory evaluation of the whole query without prefix and filters; the
  cursor \<open>Query\<close> itself opened is closed.
\<close>

theorem fallback_for_trailing_key_order:
  assumes "2 \<le> length (Orders q)"
    and "\<forall>ord\<in>set (butlast (Orders q)). \<not> isKeyOrder ord"
    and "newIterErr (db d) = None"
  shows "orderLoop (Orders q) None =
      Inr (if isKeyOrder (last (Orders q)) then Some (last (Orders q)) else None) \<and>
    (\<exists>res d2.
       Query (d\<lparr>db := opened d q\<rparr>)
         (q\<lparr>Limit := 0, Offset := 0,
            Orders := (if isKeyOrder (last (Orders q)) then [last (Orders q)] else [])\<rparr>) c =
         (Inr res, d2) \<and>
       Query d q c =
         (Inr (NaiveQueryApply (q\<lparr>Prefix := [], Filters := []\<rparr>) (ResultsReplaceQuery res q)),
          d2\<lparr>db := iter_Close (ncursors (db d)) (db d2)\<rparr>))"
proof -
  let ?base = "if isKeyOrder (last (Orders q)) then Some (last (Orders q)) else None"
  let ?bq = "q\<lparr>Limit := 0, Offset := 0,
            Orders := (if isKeyOrder (last (Orders q)) then [last (Orders q)] else [])\<rparr>"
  have ne: "Orders q \<noteq> []" using assms(1) by auto
  have plan: "orderLoop (Orders q) None = Inr ?base"
    using assms(2) ne by (simp add: orderLoop_None)
  have err: "newIterErr (db (d\<lparr>db := opened d q\<rparr>)) = None"
    using opened_frame [OF assms(3), of q] by simp
  have nat: "nativeAscending ?bq \<or> nativeDescending ?bq"
    using base_native(1) [where q = q]
      base_native(2) [where q = q and ord = "last (Orders q)"] by simp
  from Query_native_Inr [OF err nat, of c] obtain res where
    res: "Query (d\<lparr>db := opened d q\<rparr>) ?bq c = (Inr res, snd (Query (d\<lparr>db := opened d q\<rparr>) ?bq c))"
    by blast
  have bq: "q\<lparr>Limit := 0, Offset := 0, Orders := (case ?base of None \<Rightarrow> [] | Some ord \<Rightarrow> [ord])\<rparr> = ?bq"
    by simp
  have "Query d q c =
      (Inr (NaiveQueryApply (q\<lparr>Prefix := [], Filters := []\<rparr>) (ResultsReplaceQuery res q)),
       (snd (Query (d\<lparr>db := opened d q\<rparr>) ?bq c))
         \<lparr>db := iter_Close (ncursors (db d)) (db (snd (Query (d\<lparr>db := opened d q\<rparr>) ?bq c)))\<rparr>)"
    unfolding Query_fallback [OF assms(3) assms(1) plan]
      inefficientOrderQuery.simps [of "d\<lparr>db := opened d q\<rparr>" q ?base c] Let_def bq
    by (subst res) simp
  with plan res show ?thesis by blast
qed

theorem fallback_for_trailing_key_order_witness:
  "2 \<le> length (Orders (ex_query\<lparr>Orders := [OtherOrder 0, OrderByKey]\<rparr>)) \<and>
   newIterErr (db (ex_store ex_items)) = None \<and>
   orderLoop (Orders (ex_query\<lparr>Orders := [OtherOrder 0, OrderByKey]\<rparr>)) None = Inr (Some OrderByKey) \<and>
   (\<exists>res d2.
       Query ((ex_store ex_items)\<lparr>db := opened (ex_store ex_items) (ex_query\<lparr>Orders := [OtherOrder 0, OrderByKey]\<rparr>)\<rparr>)
         (ex_query\<lparr>Orders := [OtherOrder 0, OrderByKey], Limit := 0, Offset := 0, Orders := [OrderByKey]\<rparr>)
         ex_consumer = (Inr res, d2) \<and>
       Query (ex_store ex_items) (ex_query\<lparr>Orders := [OtherOrder 0, OrderByKey]\<rparr>) ex_consumer =
         (Inr (NaiveQueryApply (ex_query\<lparr>Orders := [OtherOrder 0, OrderByKey], Prefix := [], Filters := []\<rparr>)
            (ResultsReplaceQuery res (ex_query\<lparr>Orders := [OtherOrder 0, OrderByKey]\<rparr>))),
          d2\<lparr>db := iter_Close (ncursors (db (ex_store ex_items))) (db d2)\<rparr>))"
proof -
  let ?q = "ex_query\<lparr>Orders := [OtherOrder 0, OrderByKey]\<rparr>"
  have h1: "2 \<le> length (Orders ?q)" by simp
  have h2: "\<forall>ord\<in>set (butlast (Orders ?q)). \<not> isKeyOrder ord" by simp
  have h3: "newIterErr (db (ex_store ex_items)) = None" by (simp add: ex_defs)
  from fallback_for_trailing_key_order [OF h1 h2 h3, of ex_consumer] h3
  show ?thesis by simp
qed

text \<open>
  Claim C2 as it was stated fails for \<open>[OrderByKey, OtherOrder 0]\<close>: one key order, two
  orders, and \<open>Query\<close> returns the incompatible-orders error.
\<close>

theorem key_order_first_rejected:
  "fst (Query (ex_store ex_items) (ex_query\<lparr>Orders := [OrderByKey, OtherOrder 0]\<rparr>) ex_consumer) =
     Inl ErrIncompatibleOrders"
  apply (simp add: Query_unfold)
  apply (simp add: ex_defs open_defs)
  done

text \<open>
  The cursor of claim C4 on the path of the incompatible-orders error: the query
  returns the error, the engine has handed out one cursor, and that cursor was
  closed zero times.
\<close>

theorem incompatible_orders_cursor_not_closed:
  "fst (Query (ex_store ex_items) (ex_query\<lparr>Orders := [OrderByKey, OrderByKeyDescending]\<rparr>)
      ex_consumer) = Inl ErrIncompatibleOrders \<and>
   ncursors (db (snd (Query (ex_store ex_items)
      (ex_query\<lparr>Orders := [OrderByKey, OrderByKeyDescending]\<rparr>) ex_consumer))) = 1 \<and>
   closes (cursors (db (snd (Query (ex_store ex_items)
      (ex_query\<lparr>Orders := [OrderByKey, OrderByKeyDescending]\<rparr>) ex_consumer))) 0) = 0"
  apply (simp add: Query_unfold)
  apply (simp add: ex_defs open_defs)
  done

section \<open>Errors of the cursor\<close>

text \<open>
  Claim C3.  Both loops of the streamer read the cursor's error only inside an
  iteration, that is, while the cursor is valid.  A cursor that meets an engine error
  while advancing turns invalid: the loops end, the error the cursor then reports is
  never read, and the stream ends as if the scan had reached its end.  On the example
  store where the engine fails to reach \<open>"/a/2"\<close>, the query for the prefix \<open>"/a"\<close>
  delivers the entry \<open>"/a/1"\<close> and nothing else, no error event, although the cursor
  is left invalid and reporting the error.  An error the cursor reports while it is
  still valid is delivered, but it is not terminal: with the error pending on \<open>"/a/2"\<close>
  and the keys descending, the error event is followed by the entry \<open>"/a/2"\<close>.
\<close>

theorem scan_error_not_delivered:
  "fst (Query (ex_store ex_items_scan_fails) ex_query ex_consumer) =
     Inr (ResultsWithProcess ex_query
       [ResultEntry \<lparr>Key = [0x2f, 0x61, 0x2f, 0x31], Value = Some [0x78], Size = 0\<rparr>]) \<and>
   \<not> iter_Valid 0 (db (snd (Query (ex_store ex_items_scan_fails) ex_query ex_consumer))) \<and>
   iter_Error 0 (db (snd (Query (ex_store ex_items_scan_fails) ex_query ex_consumer))) =
     Some (EngineError 1) \<and>
   fst (Query (ex_store ex_items_error_pending) (ex_query\<lparr>Orders := [OrderByKeyDescending]\<rparr>)
      ex_consumer) =
     Inr (ResultsWithProcess (ex_query\<lparr>Orders := [OrderByKeyDescending]\<rparr>)
       [ResultError (EngineError 1),
        ResultEntry \<lparr>Key = [0x2f, 0x61, 0x2f, 0x32], Value = Some [0x79], Size = 0\<rparr>])"
  apply (simp add: Query_unfold)
  apply (simp add: ex_defs open_defs)
  apply (simp add: start_defs)
  apply (simp add: loop_defs)
  done

lemma errorEvents_append [simp]: "errorEvents (rs @ rs') = errorEvents rs @ errorEvents rs'"
  by (induction rs rule: errorEvents.induct) simp_all

lemma visit_subset: "set (visit xs) \<subseteq> set xs"
  by (induction xs) auto

lemma skipList_quiet:
  "demand ch = None \<Longrightarrow> \<forall>x\<in>set xs. ierr x = None \<Longrightarrow>
   \<exists>rest ch1. skipList q skipped xs ch = Proceed (rest, ch1) \<and> demand ch1 = None \<and>
     errorEvents (sent ch1) = errorEvents (sent ch) \<and> set rest \<subseteq> set xs"
proof (induction xs arbitrary: skipped ch)
  case Nil
  then show ?case by simp
next
  case (Cons x xs)
  have r: "reportItemError x ch = Proceed ch"
    using Cons.prems(2) by (simp add: reportItemError_def)
  have xs: "\<forall>x\<in>set xs. ierr x = None" using Cons.prems(2) by simp
  from Cons.IH [OF Cons.prems(1) xs, of skipped] Cons.IH [OF Cons.prems(1) xs, of "skipped + 1"]
  show ?case
    using Cons.prems(1) r by (auto split: sum.splits)
qed

lemma sendList_quiet:
  "demand ch = None \<Longrightarrow> \<forall>x\<in>set xs. ierr x = None \<Longrightarrow>
   \<exists>rest ch1. sendList q nsent xs ch = Proceed (rest, ch1) \<and> demand ch1 = None \<and>
     errorEvents (sent ch1) = errorEvents (sent ch)"
proof (induction xs arbitrary: nsent ch)
  case Nil
  then show ?case by simp
next
  case (Cons x xs)
  have r: "reportItemError x ch = Proceed ch"
    using Cons.prems(2) by (simp add: reportItemError_def)
  have xs: "\<forall>x\<in>set xs. ierr x = None" using Cons.prems(2) by simp
  show ?case
  proof (cases "Limit q \<le> 0 \<or> nsent < Limit q")
    case False
    then show ?thesis using Cons.prems(1) by simp
  next
    case True
    show ?thesis
    proof (cases "itemEntry q x")
      case (Inl err)
      then show ?thesis
        using True r Cons.IH [OF Cons.prems(1) xs, of nsent] by simp
    next
      case (Inr e)
      let ?ch2 = "ch\<lparr>sent := sent ch @ [ResultEntry e]\<rparr>"
      have d2: "demand ?ch2 = None" using Cons.prems(1) by simp
      have s2: "sendOrInterrupt (ResultEntry e) ch = Proceed ?ch2"
        using Cons.prems(1) by (rule send_None)
      show ?thesis
        using True r Inr s2 Cons.IH [OF Cons.prems(1) xs, of nsent]
          Cons.IH [OF d2 xs, of "nsent + 1"]
        by (cases "doFilter q \<and> \<not> filterFn (Filters q) e") simp_all
    qed
  qed
qed

lemma taskList_quiet:
  assumes "demand c = None" "\<forall>x\<in>set xs. ierr x = None"
  shows "errorEvents (taskList q xs c) = []"
proof -
  have d0: "demand (newChan c) = None" using assms(1) by (simp add: newChan_def)
  from skipList_quiet [OF d0 assms(2), of q 0] obtain rest ch1 where
    sk: "skipList q 0 xs (newChan c) = Proceed (rest, ch1)" "demand ch1 = None"
      "errorEvents (sent ch1) = errorEvents (sent (newChan c))" "set rest \<subseteq> set xs" by blast
  have "\<forall>x\<in>set rest. ierr x = None" using sk(4) assms(2) by blast
  from sendList_quiet [OF sk(2) this, of q 0] obtain rest1 ch2 where
    "sendList q 0 rest ch1 = Proceed (rest1, ch2)"
    "errorEvents (sent ch2) = errorEvents (sent ch1)" by blast
  then show ?thesis using sk by (simp add: taskList_def newChan_def)
qed

text \<open>
  On a store where no cursor has an error pending while it is valid, a query the
  engine orders itself delivers no error event to a consumer that receives
  everything, whatever record the engine fails to reach: the error that ends a scan
  is not delivered.
\<close>

theorem scan_end_error_silent:
  assumes "newIterErr (db d) = None"
    and "nativeAscending q \<or> nativeDescending q"
    and "demand c = None"
    and "\<forall>x\<in>set (data (db d)). ierr x = None"
  shows "\<exists>res rs. fst (Query d q c) = Inr res \<and> delivered res = Some rs \<and> errorEvents rs = []"
proof -
  from Query_native_delivered [OF assms(1,2), of c] obtain res where
    r: "fst (Query d q c) = Inr res" "delivered res = Some (taskList q (scanned d q) c)" by blast
  have "set (scanned d q) \<subseteq> set (data (db d))"
  proof
    fix x assume "x \<in> set (scanned d q)"
    then have "x \<in> set (if nativeDescending q
        then rev (filter (\<lambda>x. in_bounds (queryOpts q) (ikey x)) (data (db d)))
        else filter (\<lambda>x. in_bounds (queryOpts q) (ikey x)) (data (db d)))"
      unfolding scanned_def Let_def using visit_subset by blast
    then show "x \<in> set (data (db d))" by (simp split: if_splits)
  qed
  then have "\<forall>x\<in>set (scanned d q). ierr x = None" using assms(4) by blast
  from taskList_quiet [OF assms(3) this] r show ?thesis by simp
qed

theorem scan_end_error_silent_witness:
  "newIterErr (db (ex_store ex_items_scan_fails)) = None \<and>
   nativeAscending ex_query \<and> demand ex_consumer = None \<and>
   list_all (\<lambda>x. ierr x = None) (data (db (ex_store ex_items_scan_fails))) \<and>
   (\<exists>res rs. fst (Query (ex_store ex_items_scan_fails) ex_query ex_consumer) = Inr res \<and>
      delivered res = Some rs \<and> errorEvents rs = [])"
proof -
  have h1: "newIterErr (db (ex_store ex_items_scan_fails)) = None" by (simp add: ex_defs)
  have h2: "nativeAscending ex_query" by (simp add: nativeAscending_def ex_query_def)
  have h3: "demand ex_consumer = None" by (simp add: ex_defs)
  have a: "list_all (\<lambda>x. ierr x = None) (data (db (ex_store ex_items_scan_fails)))"
    by (simp add: ex_defs)
  then have h4: "\<forall>x\<in>set (data (db (ex_store ex_items_scan_fails))). ierr x = None"
    by (simp add: list_all_iff)
  from scan_end_error_silent [OF h1 disjI1 [OF h2] h3 h4] h1 h2 h3 a show ?thesis by blast
qed

section \<open>Records whose value cannot be read\<close>

lemma createEntry_fails:
  "(createEntry q h eng = Inl err) =
   ((\<not> KeysOnly q \<or> ReturnsSizes q) \<and> iter_ValueAndErr h eng = Inl err)"
  by (auto simp: createEntry_itemEntry itemEntry_alt iter_ValueAndErr_def split: sum.splits)

lemma unreadable_itemEntry: "unreadable q x \<Longrightarrow> \<exists>err. itemEntry q x = Inl err"
  by (cases "ival x") (auto simp: unreadable_def itemEntry_alt)

lemma unreadable_report: "unreadable q x \<Longrightarrow> reportItemError x ch = Proceed ch"
  by (simp add: unreadable_def reportItemError_def)

lemma skipList_done: "\<not> skipped < Offset q \<Longrightarrow> skipList q skipped xs ch = Proceed (xs, ch)"
  by (cases xs) simp_all

lemma sendList_done:
  "\<not> (Limit q \<le> 0 \<or> nsent < Limit q) \<Longrightarrow> sendList q nsent xs ch = Proceed (xs, ch)"
  by (cases xs) simp_all

lemma skipList_readable:
  "map_flow (readable q) (skipList q skipped xs ch) =
   skipList q skipped (filter (\<lambda>x. \<not> unreadable q x) xs) ch"
proof (induction xs arbitrary: skipped ch)
  case Nil
  then show ?case by (simp add: readable_def)
next
  case (Cons x xs)
  show ?case
  proof (cases "skipped < Offset q")
    case False
    then show ?thesis by (simp add: skipList_done readable_def)
  next
    case True
    show ?thesis
    proof (cases "unreadable q x")
      case bad: True
      from unreadable_itemEntry [OF bad] obtain err where "itemEntry q x = Inl err" by blast
      then show ?thesis
        using True bad Cons.IH [of skipped ch] by (simp add: unreadable_report)
    next
      case False
      then show ?thesis
        using True Cons.IH
        by (auto simp add: readable_def split: flow.splits sum.splits)
    qed
  qed
qed

lemma sendList_readable:
  "map_flow (readable q) (sendList q nsent xs ch) =
   sendList q nsent (filter (\<lambda>x. \<not> unreadable q x) xs) ch"
proof (induction xs arbitrary: nsent ch)
  case Nil
  then show ?case by (simp add: readable_def)
next
  case (Cons x xs)
  show ?case
  proof (cases "Limit q \<le> 0 \<or> nsent < Limit q")
    case False
    then show ?thesis by (simp add: sendList_done readable_def)
  next
    case True
    show ?thesis
    proof (cases "unreadable q x")
      case bad: True
      from unreadable_itemEntry [OF bad] obtain err where "itemEntry q x = Inl err" by blast
      then show ?thesis
        using True bad Cons.IH [of nsent ch] by (simp add: unreadable_report)
    next
      case False
      then show ?thesis
        using True Cons.IH
        by (auto simp add: readable_def split: flow.splits sum.splits)
    qed
  qed
qed

lemma taskList_readable:
  "taskList q (filter (\<lambda>x. \<not> unreadable q x) xs) c = taskList q xs c"
proof (cases "skipList q 0 xs (newChan c)")
  case (Interrupted s)
  then show ?thesis
    using skipList_readable [of q 0 xs "newChan c", symmetric]
    by (cases s) (simp add: taskList_def readable_def)
next
  case (Proceed s)
  obtain rest ch where s: "s = (rest, ch)" by (cases s)
  have sk: "skipList q 0 (filter (\<lambda>x. \<not> unreadable q x) xs) (newChan c) =
      Proceed (filter (\<lambda>x. \<not> unreadable q x) rest, ch)"
    using skipList_readable [of q 0 xs "newChan c", symmetric] Proceed s by (simp add: readable_def)
  show ?thesis
  proof (cases "sendList q 0 rest ch")
    case I2: (Interrupted s2)
    then show ?thesis
      using sendList_readable [of q 0 rest ch, symmetric] Proceed s sk
      by (cases s2) (simp add: taskList_def readable_def)
  next
    case P2: (Proceed s2)
    then show ?thesis
      using sendList_readable [of q 0 rest ch, symmetric] Proceed s sk
      by (cases s2) (simp add: taskList_def readable_def)
  qed
qed

lemma visit_readable:
  "visit (filter (\<lambda>x. \<not> unreadable q x) xs) = filter (\<lambda>x. \<not> unreadable q x) (visit xs)"
  by (induction xs) (auto simp add: unreadable_def)

lemma scanned_withoutUnreadable:
  "scanned (withoutUnreadable q d) q = filter (\<lambda>x. \<not> unreadable q x) (scanned d q)"
proof -
  let ?xs = "filter (\<lambda>x. in_bounds (queryOpts q) (ikey x)) (data (db d))"
  have "filter (\<lambda>x. in_bounds (queryOpts q) (ikey x)) (data (db (withoutUnreadable q d))) =
      filter (\<lambda>x. \<not> unreadable q x) ?xs"
    by (simp add: withoutUnreadable_def conj_commute)
  then have "scanned (withoutUnreadable q d) q =
      visit (filter (\<lambda>x. \<not> unreadable q x) (if nativeDescending q then rev ?xs else ?xs))"
    by (simp only: scanned_def Let_def rev_filter if_distrib [of "filter _"])
  then show ?thesis
    by (simp only: scanned_def Let_def visit_readable)
qed

lemma skipLoop_step_unreadable:
  assumes "iter_Valid h eng" "createEntry q h eng = Inl err" "iter_Error h eng = None"
    "skipped < Offset q"
  shows "skipLoop q mv h skipped (eng, ch) = skipLoop q mv h skipped (move mv h eng, ch)"
  using assms by (simp add: skipLoop.simps [of q mv h skipped eng ch] reportError_def)

lemma sendLoop_step_unreadable:
  assumes "iter_Valid h eng" "createEntry q h eng = Inl err" "iter_Error h eng = None"
    "Limit q \<le> 0 \<or> nsent < Limit q"
  shows "sendLoop q mv h nsent (eng, ch) = sendLoop q mv h nsent (move mv h eng, ch)"
  using assms by (simp add: sendLoop.simps [of q mv h nsent eng ch] reportError_def)

lemma Query_without_unreadable:
  assumes "newIterErr (db d) = None" "nativeAscending q \<or> nativeDescending q"
  shows "\<exists>res res' rs. fst (Query d q c) = Inr res \<and>
       fst (Query (withoutUnreadable q d) q c) = Inr res' \<and>
       delivered res = Some rs \<and> delivered res' = Some rs"
proof -
  have e: "newIterErr (db (withoutUnreadable q d)) = None"
    using assms(1) by (simp add: withoutUnreadable_def)
  from Query_native_delivered [OF assms, of c] obtain res where
    r: "fst (Query d q c) = Inr res" "delivered res = Some (taskList q (scanned d q) c)" by blast
  from Query_native_delivered [OF e assms(2), of c] obtain res' where
    r': "fst (Query (withoutUnreadable q d) q c) = Inr res'"
      "delivered res' = Some (taskList q (scanned (withoutUnreadable q d) q) c)" by blast
  show ?thesis
    using r r' by (simp add: scanned_withoutUnreadable taskList_readable)
qed

text \<open>
  Claim C10.  \<open>createEntry\<close> fails exactly when the query materialises values (it is not
  keys-only, or it returns sizes) and reading the value at the cursor fails.  At such
  a position, the cursor reporting no error of its own, each loop goes on from the
  next position with its counter (\<open>skipped\<close>, \<open>sent\<close>) and the channel unchanged:
  nothing is delivered for the record and no offset slot is used.  So a native query
  delivers the same results as on the store without its unreadable records.
\<close>

theorem unreadable_entry_dropped:
  "(createEntry q h eng = Inl err) =
     ((\<not> KeysOnly q \<or> ReturnsSizes q) \<and> iter_ValueAndErr h eng = Inl err) \<and>
   (iter_Valid h eng \<and> createEntry q h eng = Inl err \<and> iter_Error h eng = None \<longrightarrow>
      (skipped < Offset q \<longrightarrow>
         skipLoop q mv h skipped (eng, ch) = skipLoop q mv h skipped (move mv h eng, ch)) \<and>
      (Limit q \<le> 0 \<or> nsent < Limit q \<longrightarrow>
         sendLoop q mv h nsent (eng, ch) = sendLoop q mv h nsent (move mv h eng, ch))) \<and>
   (newIterErr (db d) = None \<and> (nativeAscending q \<or> nativeDescending q) \<longrightarrow>
      (\<exists>res res' rs. fst (Query d q c) = Inr res \<and>
         fst (Query (withoutUnreadable q d) q c) = Inr res' \<and>
         delivered res = Some rs \<and> delivered res' = Some rs))"
  using createEntry_fails [of q h eng err]
    skipLoop_step_unreadable [of h eng q err skipped mv ch]
    sendLoop_step_unreadable [of h eng q err nsent mv ch]
    Query_without_unreadable [of d q c]
  by blast

theorem unreadable_entry_dropped_witness:
  "iter_Valid 0 (iter_First 0 (opened (ex_store ex_items_unreadable) ex_query)) \<and>
   createEntry (ex_query\<lparr>Offset := 1\<rparr>) 0
     (iter_First 0 (opened (ex_store ex_items_unreadable) ex_query)) = Inl (EngineError 2) \<and>
   iter_Error 0 (iter_First 0 (opened (ex_store ex_items_unreadable) ex_query)) = None \<and>
   (0 :: int) < Offset (ex_query\<lparr>Offset := 1\<rparr>) \<and>
   Limit (ex_query\<lparr>Offset := 1\<rparr>) \<le> 0 \<and>
   skipLoop (ex_query\<lparr>Offset := 1\<rparr>) Next 0 0
     (iter_First 0 (opened (ex_store ex_items_unreadable) ex_query), newChan ex_consumer) =
   skipLoop (ex_query\<lparr>Offset := 1\<rparr>) Next 0 0
     (move Next 0 (iter_First 0 (opened (ex_store ex_items_unreadable) ex_query)), newChan ex_consumer) \<and>
   sendLoop (ex_query\<lparr>Offset := 1\<rparr>) Next 0 0
     (iter_First 0 (opened (ex_store ex_items_unreadable) ex_query), newChan ex_consumer) =
   sendLoop (ex_query\<lparr>Offset := 1\<rparr>) Next 0 0
     (move Next 0 (iter_First 0 (opened (ex_store ex_items_unreadable) ex_query)), newChan ex_consumer) \<and>
   fst (Query (ex_store ex_items_unreadable) ex_query ex_consumer) =
     Inr (ResultsWithProcess ex_query
       [ResultEntry \<lparr>Key = [0x2f, 0x61, 0x2f, 0x32], Value = Some [0x79], Size = 0\<rparr>]) \<and>
   fst (Query (ex_store ex_items_unreadable) (ex_query\<lparr>Offset := 1\<rparr>) ex_consumer) =
     Inr (ResultsWithProcess (ex_query\<lparr>Offset := 1\<rparr>) [])"
proof -
  let ?eng = "iter_First 0 (opened (ex_store ex_items_unreadable) ex_query)"
  let ?q = "ex_query\<lparr>Offset := 1\<rparr>"
  have v: "iter_Valid 0 ?eng"
    by (simp add: opened_def ex_defs open_defs iter_First_def iter_upd_def iter_Valid_def valid_def
        inRange_def arrive_def current_def)
  have ce: "createEntry ?q 0 ?eng = Inl (EngineError 2)"
    by (simp add: opened_def ex_defs open_defs iter_First_def iter_upd_def createEntry_def
        iter_ValueAndErr_def iter_Key_def current_def inRange_def arrive_def)
  have e: "iter_Error 0 ?eng = None"
    by (simp add: opened_def ex_defs open_defs iter_First_def iter_upd_def iter_Error_def
        valid_def current_def inRange_def arrive_def)
  have o: "(0 :: int) < Offset ?q" by simp
  have l: "Limit ?q \<le> 0" by (simp add: ex_query_def)
  have run0: "fst (Query (ex_store ex_items_unreadable) ex_query ex_consumer) =
     Inr (ResultsWithProcess ex_query
       [ResultEntry \<lparr>Key = [0x2f, 0x61, 0x2f, 0x32], Value = Some [0x79], Size = 0\<rparr>])"
    apply (simp add: Query_unfold)
    apply (simp add: ex_defs open_defs)
    apply (simp add: start_defs)
    apply (simp add: loop_defs)
    done
  have run1: "fst (Query (ex_store ex_items_unreadable) ?q ex_consumer) =
     Inr (ResultsWithProcess ?q [])"
    apply (simp add: Query_unfold)
    apply (simp add: ex_defs open_defs)
    apply (simp add: start_defs)
    apply (simp add: loop_defs)
    done
  from unreadable_entry_dropped [where q = ?q and h = 0 and eng = ?eng and err = "EngineError 2"
      and skipped = 0 and nsent = 0 and mv = Next and ch = "newChan ex_consumer"] v ce e o l
  have "skipLoop ?q Next 0 0 (?eng, newChan ex_consumer) =
      skipLoop ?q Next 0 0 (move Next 0 ?eng, newChan ex_consumer) \<and>
    sendLoop ?q Next 0 0 (?eng, newChan ex_consumer) =
      sendLoop ?q Next 0 0 (move Next 0 ?eng, newChan ex_consumer)"
    by blast
  with v ce e o l run0 run1 show ?thesis by blast
qed

section \<open>Batches\<close>

lemma find_store_set:
  "find (\<lambda>x. ikey x = k) (store_set k v xs) = Some \<lparr>ikey = k, ival = Inr v, ierr = None, ifail = None\<rparr>"
  by (induction xs) simp_all

lemma find_store_delete: "find (\<lambda>x. ikey x = k) (store_delete k xs) = None"
  by (simp add: store_delete_def find_None_iff)

lemma commit_put_delete:
  assumes "writeErr (db d) = None"
  shows "Batch_Commit (snd (Batch_Delete (snd (Batch_Put b K v)) K)) d =
    (None, d\<lparr>db := (db d)\<lparr>data := store_delete K (store_set K v (foldl apply_op (data (db d)) (batch b)))\<rparr>\<rparr>)"
  using assms
  by (simp add: Batch_Commit_def Batch_Delete_def Batch_Put_def batch_Set_def batch_Delete_def
      batch_Commit_def)

lemma commit_delete_put:
  assumes "writeErr (db d) = None"
  shows "Batch_Commit (snd (Batch_Put (snd (Batch_Delete b K)) K v)) d =
    (None, d\<lparr>db := (db d)\<lparr>data := store_set K v (store_delete K (foldl apply_op (data (db d)) (batch b)))\<rparr>\<rparr>)"
  using assms
  by (simp add: Batch_Commit_def Batch_Delete_def Batch_Put_def batch_Set_def batch_Delete_def
      batch_Commit_def)

text \<open>
  Claim C8.  On a store that accepts writes, for every key \<open>K\<close>, value \<open>v\<close> and batch
  \<open>b\<close> (whatever it already holds): \<open>Put(K, v)\<close> then \<open>Delete(K)\<close> then \<open>Commit\<close> all
  succeed and leave \<open>K\<close> absent; \<open>Delete(K)\<close> then \<open>Put(K, v)\<close> then \<open>Commit\<close> all
  succeed and leave \<open>K\<close> present with the value \<open>v\<close>.  The wrapper adds each operation
  to the engine's batch as it comes, without looking at the ones before it.
\<close>

theorem batch_later_operation_wins:
  assumes "writeErr (db d) = None"
  shows "fst (Batch_Put b K v) = None \<and>
    fst (Batch_Delete (snd (Batch_Put b K v)) K) = None \<and>
    fst (Batch_Commit (snd (Batch_Delete (snd (Batch_Put b K v)) K)) d) = None \<and>
    Get (snd (Batch_Commit (snd (Batch_Delete (snd (Batch_Put b K v)) K)) d)) K = Inl ErrNotFound \<and>
    Has (snd (Batch_Commit (snd (Batch_Delete (snd (Batch_Put b K v)) K)) d)) K = Inr False \<and>
    fst (Batch_Delete b K) = None \<and>
    fst (Batch_Put (snd (Batch_Delete b K)) K v) = None \<and>
    fst (Batch_Commit (snd (Batch_Put (snd (Batch_Delete b K)) K v)) d) = None \<and>
    Get (snd (Batch_Commit (snd (Batch_Put (snd (Batch_Delete b K)) K v)) d)) K = Inr v \<and>
    Has (snd (Batch_Commit (snd (Batch_Put (snd (Batch_Delete b K)) K v)) d)) K = Inr True \<and>
    batch (snd (Batch_Delete (snd (Batch_Put b K v)) K)) = batch b @ [BatchSet K v, BatchDelete K] \<and>
    batch (snd (Batch_Put (snd (Batch_Delete b K)) K v)) = batch b @ [BatchDelete K, BatchSet K v]"
  unfolding commit_put_delete [OF assms] commit_delete_put [OF assms]
  by (simp add: Get_def Has_def get_def db_Get_def find_store_set find_store_delete
      Batch_Put_def Batch_Delete_def batch_Set_def batch_Delete_def)

theorem batch_later_operation_wins_witness:
  "writeErr (db (ex_store ex_items)) = None \<and>
   Get (ex_store ex_items) [0x2f, 0x61, 0x2f, 0x31] = Inr [0x78] \<and>
   Get (snd (Batch_Commit
      (snd (Batch_Delete (snd (Batch_Put \<lparr>batch = []\<rparr> [0x2f, 0x61, 0x2f, 0x31] [0x61]))
         [0x2f, 0x61, 0x2f, 0x31]))
      (ex_store ex_items))) [0x2f, 0x61, 0x2f, 0x31] = Inl ErrNotFound \<and>
   Get (snd (Batch_Commit
      (snd (Batch_Put (snd (Batch_Delete \<lparr>batch = []\<rparr> [0x2f, 0x61, 0x2f, 0x31]))
         [0x2f, 0x61, 0x2f, 0x31] [0x61]))
      (ex_store ex_items))) [0x2f, 0x61, 0x2f, 0x31] = Inr [0x61]"
proof -
  have w: "writeErr (db (ex_store ex_items)) = None" by (simp add: ex_defs)
  have g: "Get (ex_store ex_items) [0x2f, 0x61, 0x2f, 0x31] = Inr [0x78]"
    by (simp add: ex_defs Get_def get_def db_Get_def)
  from batch_later_operation_wins [OF w, of "\<lparr>batch = []\<rparr>" "[0x2f, 0x61, 0x2f, 0x31]" "[0x61]"] w g
  show ?thesis by blast
qed

section \<open>Close\<close>

lemma teardown_wg [simp]: "teardown p (d\<lparr>wg := n\<rparr>) = teardown p d"
  by (cases p) simp_all










lemma winner_teardown: "teardown p d \<Longrightarrow> winner p"
  by (cases p) simp_all











section \<open>Release of the cursors\<close>

lemma sameBut_refl: "sameBut h eng eng"
  by (simp add: sameBut_def)

lemma sameBut_trans: "sameBut h a b \<Longrightarrow> sameBut h b c \<Longrightarrow> sameBut h a c"
  by (simp add: sameBut_def)

lemma arrive_frame: "items (arrive p it) = items it \<and> closes (arrive p it) = closes it"
  by (simp add: arrive_def Let_def split: option.splits)

lemma advance_frame: "items (advance k it) = items it \<and> closes (advance k it) = closes it"
  by (simp add: advance_def arrive_frame)

lemma sameBut_move: "sameBut h eng (move mv h eng)"
  by (cases mv)
    (simp_all add: sameBut_def iter_Next_def iter_Prev_def iter_upd_def advance_frame)

lemma skipLoop_sameBut: "sameBut h eng (fst (after (skipLoop q mv h skipped (eng, ch))))"
proof (induction q mv h skipped "(eng, ch)" arbitrary: eng ch rule: skipLoop.induct)
  case (1 q mv h skipped eng ch)
  have mv: "sameBut h (move mv h eng) X \<Longrightarrow> sameBut h eng X" for X
    using sameBut_move [of h eng mv] by (rule sameBut_trans)
  show ?case
    using "1.hyps"
    by (auto simp add: skipLoop.simps [of q mv h skipped eng ch] sameBut_refl
        split: flow.splits sum.splits intro!: mv)
qed

lemma sendLoop_sameBut: "sameBut h eng (fst (after (sendLoop q mv h nsent (eng, ch))))"
proof (induction q mv h nsent "(eng, ch)" arbitrary: eng ch rule: sendLoop.induct)
  case (1 q mv h nsent eng ch)
  have mv: "sameBut h (move mv h eng) X \<Longrightarrow> sameBut h eng X" for X
    using sameBut_move [of h eng mv] by (rule sameBut_trans)
  show ?case
    using "1.hyps"
    by (auto simp add: sendLoop.simps [of q mv h nsent eng ch] sameBut_refl
        split: flow.splits sum.splits intro!: mv)
qed

lemma streamTask_closes:
  "\<exists>eng1. sameBut h eng eng1 \<and> fst (streamTask q mv h (eng, ch)) = iter_Close h eng1"
proof (cases "skipLoop q mv h 0 (eng, ch)")
  case (Interrupted s)
  with skipLoop_sameBut [of h eng q mv 0 ch] show ?thesis
    by (cases s) (auto simp: streamTask_def)
next
  case (Proceed s)
  obtain eng1 ch1 where s: "s = (eng1, ch1)" by (cases s)
  have a: "sameBut h eng eng1"
    using skipLoop_sameBut [of h eng q mv 0 ch] Proceed s by simp
  have b: "sameBut h eng1 (fst (after (sendLoop q mv h 0 (eng1, ch1))))"
    by (rule sendLoop_sameBut)
  have "fst (streamTask q mv h (eng, ch)) = iter_Close h (fst (after (sendLoop q mv h 0 (eng1, ch1))))"
    using Proceed s by (cases "sendLoop q mv h 0 (eng1, ch1)") (auto simp: streamTask_def)
  with sameBut_trans [OF a b] show ?thesis by blast
qed

lemma streamResults_closedOnce: "closedOnce h d (snd (streamResults d q c h mv))"
proof (cases "iter_Valid h (db d)")
  case False
  then show ?thesis
    by (simp add: streamResults_def closedOnce_def iter_Close_def iter_upd_def)
next
  case True
  from streamTask_closes [of h "db d" q mv "newChan c"] obtain eng1 where
    e: "sameBut h (db d) eng1" "fst (streamTask q mv h (db d, newChan c)) = iter_Close h eng1"
    by blast
  show ?thesis
    using True e
    by (cases "streamTask q mv h (db d, newChan c)")
       (simp add: streamResults_def closedOnce_def Let_def iter_Close_def iter_upd_def sameBut_def)
qed

lemma closedOnce_released:
  assumes "newIterErr (db d) = None"
    "closedOnce (ncursors (db d)) (d\<lparr>db := eng\<rparr>) d1"
    "sameBut (ncursors (db d)) (opened d q) eng"
  shows "released d d1"
proof -
  have only: "h = ncursors (db d)" if "ncursors (db d) \<le> h" "h < Suc (ncursors (db d))" for h
    using that by simp
  show ?thesis
    using assms opened_frame [OF assms(1), of q]
    by (auto simp: released_def closedOnce_def sameBut_def dest: only)
qed

lemma sameBut_First: "sameBut h eng (iter_First h eng)"
  by (simp add: sameBut_def iter_First_def iter_upd_def arrive_frame)

lemma sameBut_Last: "sameBut h eng (iter_Last h eng)"
  by (simp add: sameBut_def iter_Last_def iter_upd_def arrive_frame)

lemma Query_native_released:
  assumes "newIterErr (db d) = None" "nativeAscending q \<or> nativeDescending q"
  shows "released d (snd (Query d q c))"
proof (cases "nativeDescending q")
  case True
  show ?thesis
    unfolding Query_native_descending [OF assms(1) True]
    by (rule closedOnce_released [OF assms(1) streamResults_closedOnce sameBut_Last])
next
  case False
  with assms(2) have asc: "nativeAscending q" by blast
  show ?thesis
    unfolding Query_native_ascending [OF assms(1) asc]
    by (rule closedOnce_released [OF assms(1) streamResults_closedOnce sameBut_First])
qed

lemma inefficient_snd:
  "snd (inefficientOrderQuery d q baseOrder c) =
   snd (Query d (q\<lparr>Limit := 0, Offset := 0,
                   Orders := (case baseOrder of None \<Rightarrow> [] | Some ord \<Rightarrow> [ord])\<rparr>) c)"
  by (simp add: inefficientOrderQuery.simps [of d q baseOrder c] Let_def split: prod.splits sum.splits)

lemma fallback_released:
  assumes "newIterErr (db d) = None"
    "baseOrder = None \<or> (\<exists>ord. baseOrder = Some ord \<and> isKeyOrder ord)"
    "Query d q c =
      (case inefficientOrderQuery (d\<lparr>db := opened d q\<rparr>) q baseOrder c of
         (r, d2) \<Rightarrow> (r, d2\<lparr>db := iter_Close (ncursors (db d)) (db d2)\<rparr>))"
  shows "released d (snd (Query d q c))"
proof -
  let ?d1 = "d\<lparr>db := opened d q\<rparr>"
  let ?bq = "q\<lparr>Limit := 0, Offset := 0,
                   Orders := (case baseOrder of None \<Rightarrow> [] | Some ord \<Rightarrow> [ord])\<rparr>"
  let ?d2 = "snd (Query ?d1 ?bq c)"
  have o: "newIterErr (db ?d1) = None" "ncursors (db ?d1) = Suc (ncursors (db d))"
    "wg ?d1 = wg d" "\<forall>h. h < ncursors (db d) \<longrightarrow> cursors (db ?d1) h = cursors (db d) h"
    "closes (cursors (db ?d1) (ncursors (db d))) = 0"
    using opened_frame [OF assms(1), of q] by auto
  have nat: "nativeAscending ?bq \<or> nativeDescending ?bq"
    using assms(2) base_native(1) [where q = q] base_native(2) [where q = q] by fastforce
  have r: "released ?d1 ?d2" using o(1) nat by (rule Query_native_released)
  have s: "snd (Query d q c) = ?d2\<lparr>db := iter_Close (ncursors (db d)) (db ?d2)\<rparr>"
    unfolding assms(3) using inefficient_snd [of ?d1 q baseOrder c]
    by (simp add: split_beta)
  show ?thesis
    unfolding s using r o assms(1)
    by (auto simp: released_def iter_Close_def iter_upd_def)
qed

lemma Query_single_other:
  assumes "newIterErr (db d) = None" "Orders q = [OtherOrder cmp]"
  shows "Query d q c =
      (case inefficientOrderQuery (d\<lparr>db := opened d q\<rparr>) q None c of
         (r, d2) \<Rightarrow> (r, d2\<lparr>db := iter_Close (ncursors (db d)) (db d2)\<rparr>))"
  unfolding Query_unfold NewIter_ok [OF assms(1)] by (simp add: assms(2) Let_def)

lemma native_or_not:
  "nativeAscending q \<or> nativeDescending q \<or> (\<exists>cmp. Orders q = [OtherOrder cmp]) \<or>
   2 \<le> length (Orders q)"
proof (cases "Orders q")
  case Nil
  then show ?thesis by (simp add: nativeAscending_def)
next
  case (Cons ord ords)
  show ?thesis
  proof (cases ords)
    case Nil
    with Cons show ?thesis
      by (cases ord) (simp_all add: nativeAscending_def nativeDescending_def keyAscending_def
          keyDescending_def)
  next
    case (Cons a list)
    with \<open>Orders q = ord # ords\<close> show ?thesis by simp
  qed
qed

text \<open>
  Every way out of \<open>Query\<close> but the incompatible-orders error releases the cursors:
  whatever the consumer does (it receives everything, or it goes away after any
  number of results), when \<open>Query\<close> has returned and its task has ended, each cursor
  the call opened has been closed exactly once and no streamer is left registered.
\<close>

theorem Query_releases_cursors:
  assumes "newIterErr (db d) = None" and "fst (Query d q c) \<noteq> Inl ErrIncompatibleOrders"
  shows "released d (snd (Query d q c))"
proof -
  consider "nativeAscending q \<or> nativeDescending q" | cmp where "Orders q = [OtherOrder cmp]"
    | "2 \<le> length (Orders q)"
    using native_or_not [of q] by blast
  then show ?thesis
  proof cases
    case 1
    with assms(1) show ?thesis by (rule Query_native_released)
  next
    case 2
    show ?thesis
      by (rule fallback_released [OF assms(1) _ Query_single_other [OF assms(1) 2]]) simp
  next
    case 3
    show ?thesis
    proof (cases "\<exists>ord\<in>set (butlast (Orders q)). isKeyOrder ord")
      case True
      with Query_plan_error [OF assms(1) 3] assms(2) show ?thesis by simp
    next
      case False
      then have plan: "orderLoop (Orders q) None =
          Inr (if Orders q \<noteq> [] \<and> isKeyOrder (last (Orders q)) then Some (last (Orders q)) else None)"
        by (simp add: orderLoop_None)
      show ?thesis
        by (rule fallback_released [OF assms(1) _ Query_fallback [OF assms(1) 3 plan]]) simp
    qed
  qed
qed

theorem Query_releases_cursors_witness:
  "newIterErr (db (ex_store ex_items)) = None \<and>
   fst (Query (ex_store ex_items) ex_query ex_leaving) =
     Inr (ResultsWithProcess ex_query
       [ResultEntry \<lparr>Key = [0x2f, 0x61, 0x2f, 0x31], Value = Some [0x78], Size = 0\<rparr>,
        ResultError ErrCloseRequested]) \<and>
   released (ex_store ex_items) (snd (Query (ex_store ex_items) ex_query ex_leaving))"
proof -
  have n: "newIterErr (db (ex_store ex_items)) = None" by (simp add: ex_defs)
  have run: "fst (Query (ex_store ex_items) ex_query ex_leaving) =
     Inr (ResultsWithProcess ex_query
       [ResultEntry \<lparr>Key = [0x2f, 0x61, 0x2f, 0x31], Value = Some [0x78], Size = 0\<rparr>,
        ResultError ErrCloseRequested])"
    apply (simp add: Query_unfold)
    apply (simp add: ex_defs ex_leaving_def open_defs)
    apply (simp add: start_defs)
    apply (simp add: loop_defs)
    done
  then have ok: "fst (Query (ex_store ex_items) ex_query ex_leaving) \<noteq> Inl ErrIncompatibleOrders"
    by simp
  from Query_releases_cursors [OF n ok] n run show ?thesis by blast
qed

section \<open>The two native orders\<close>

lemma itemEntry_Orders: "itemEntry (q\<lparr>Orders := os\<rparr>) x = itemEntry q x"
  by (simp add: itemEntry_alt split: sum.splits)

lemma skipLoop_Orders:
  "skipLoop (q\<lparr>Orders := os\<rparr>) mv h skipped s = skipLoop q mv h skipped s"
proof (induction q mv h skipped s rule: skipLoop.induct)
  case (1 q mv h skipped eng ch)
  show ?case
    using "1.IH"
    by (simp add: skipLoop.simps [of q mv h skipped eng ch]
        skipLoop.simps [of "q\<lparr>Orders := os\<rparr>" mv h skipped eng ch]
        createEntry_itemEntry itemEntry_Orders doFilter_def
        split: flow.splits sum.splits)
qed

lemma sendLoop_Orders:
  "sendLoop (q\<lparr>Orders := os\<rparr>) mv h nsent s = sendLoop q mv h nsent s"
proof (induction q mv h nsent s rule: sendLoop.induct)
  case (1 q mv h nsent eng ch)
  show ?case
    using "1.IH"
    by (simp add: sendLoop.simps [of q mv h nsent eng ch]
        sendLoop.simps [of "q\<lparr>Orders := os\<rparr>" mv h nsent eng ch]
        createEntry_itemEntry itemEntry_Orders doFilter_def
        split: flow.splits sum.splits)
qed

lemma streamTask_Orders: "streamTask (q\<lparr>Orders := os\<rparr>) mv h s = streamTask q mv h s"
  by (simp add: streamTask_def skipLoop_Orders sendLoop_Orders cong: flow.case_cong)

lemma streamResults_Orders:
  "snd (streamResults d (q\<lparr>Orders := os\<rparr>) c h mv) = snd (streamResults d q c h mv) \<and>
   map_sum id delivered (fst (streamResults d (q\<lparr>Orders := os\<rparr>) c h mv)) =
   map_sum id delivered (fst (streamResults d q c h mv))"
  by (simp add: streamResults_def Let_def streamTask_Orders split: prod.splits)

lemma queryOpts_Orders: "queryOpts (q\<lparr>Orders := os\<rparr>) = queryOpts q"
  by (simp add: queryOpts_def)

text \<open>
  A query with no order and the same query with the one order \<open>OrderByKey\<close> leave the
  same datastore and deliver the same results.
\<close>

theorem no_order_is_key_order:
  "snd (Query d (q\<lparr>Orders := [OrderByKey]\<rparr>) c) = snd (Query d (q\<lparr>Orders := []\<rparr>) c) \<and>
   map_sum id delivered (fst (Query d (q\<lparr>Orders := [OrderByKey]\<rparr>) c)) =
   map_sum id delivered (fst (Query d (q\<lparr>Orders := []\<rparr>) c))"
proof (cases "newIterErr (db d)")
  case (Some err)
  then show ?thesis by (simp add: Query_no_cursor)
next
  case None
  have a: "nativeAscending (q\<lparr>Orders := [OrderByKey]\<rparr>)" "nativeAscending (q\<lparr>Orders := []\<rparr>)"
    by (simp_all add: nativeAscending_def keyAscending_def)
  have o: "opened d (q\<lparr>Orders := [OrderByKey]\<rparr>) = opened d (q\<lparr>Orders := []\<rparr>)"
    by (simp add: opened_def queryOpts_Orders)
  show ?thesis
    unfolding Query_native_ascending [OF None a(1)] Query_native_ascending [OF None a(2)] o
    using streamResults_Orders [where q = q and os = "[OrderByKey]"]
      streamResults_Orders [where q = q and os = "[]"]
    by simp
qed

lemma map_filter_rev: "List.map_filter f (rev xs) = rev (List.map_filter f xs)"
  by (simp add: List.map_filter_def rev_map rev_filter)

lemma matching_rev: "matching q (rev xs) = rev (matching q xs)"
  by (simp add: matching_def map_filter_rev rev_filter)

lemma entryOpt_Orders: "entryOpt (q\<lparr>Orders := os\<rparr>) = entryOpt q"
  by (rule ext) (simp add: entryOpt_def itemEntry_Orders)

lemma matching_Orders: "matching (q\<lparr>Orders := os\<rparr>) xs = matching q xs"
  by (simp add: matching_def entryOpt_Orders)

lemma visit_all: "\<forall>x\<in>set xs. ierr x = None \<and> ifail x = None \<Longrightarrow> visit xs = xs"
  by (induction xs) simp_all

text \<open>
  With no offset, no limit, a consumer that receives everything and a store every
  record of which the engine reaches without an error, the entries of the query in
  descending key order are the entries of the query in ascending key order, reversed.
\<close>

theorem descending_is_reverse:
  assumes "newIterErr (db d) = None" and "demand c = None"
    and "Offset q = 0" and "Limit q = 0"
    and "\<forall>x\<in>set (data (db d)). ierr x = None \<and> ifail x = None"
  shows "\<exists>down up ds us.
    fst (Query d (q\<lparr>Orders := [OrderByKeyDescending]\<rparr>) c) = Inr down \<and> delivered down = Some ds \<and>
    fst (Query d (q\<lparr>Orders := [OrderByKey]\<rparr>) c) = Inr up \<and> delivered up = Some us \<and>
    entries ds = rev (entries us)"
proof -
  let ?qd = "q\<lparr>Orders := [OrderByKeyDescending]\<rparr>" and ?qu = "q\<lparr>Orders := [OrderByKey]\<rparr>"
  let ?xs = "filter (\<lambda>x. in_bounds (queryOpts q) (ikey x)) (data (db d))"
  have nd: "nativeAscending ?qd \<or> nativeDescending ?qd"
    by (simp add: nativeDescending_def keyDescending_def)
  have nu: "nativeAscending ?qu \<or> nativeDescending ?qu"
    by (simp add: nativeAscending_def keyAscending_def)
  from Query_native_delivered [OF assms(1) nd, of c] obtain down where
    d: "fst (Query d ?qd c) = Inr down" "delivered down = Some (taskList ?qd (scanned d ?qd) c)"
    by blast
  from Query_native_delivered [OF assms(1) nu, of c] obtain up where
    u: "fst (Query d ?qu c) = Inr up" "delivered up = Some (taskList ?qu (scanned d ?qu) c)"
    by blast
  have ok: "\<forall>x\<in>set ?xs. ierr x = None \<and> ifail x = None"
    using assms(5) by simp
  have okr: "\<forall>x\<in>set (rev ?xs). ierr x = None \<and> ifail x = None"
    using assms(5) by simp
  have su: "scanned d ?qu = ?xs"
    using visit_all [OF ok]
    by (simp add: scanned_def queryOpts_Orders nativeDescending_def keyDescending_def Let_def)
  have sd: "scanned d ?qd = rev ?xs"
    using visit_all [OF okr]
    by (simp add: scanned_def queryOpts_Orders nativeDescending_def keyDescending_def Let_def)
  have "entries (taskList ?qd (scanned d ?qd) c) = rev (entries (taskList ?qu (scanned d ?qu) c))"
    using assms(3,4) unfolding su sd
    by (simp add: taskList_None [OF assms(2)] matching_rev matching_Orders)
  with d u show ?thesis by simp
qed

theorem descending_is_reverse_witness:
  "newIterErr (db (ex_store ex_items)) = None \<and> demand ex_consumer = None \<and>
   Offset ex_query = 0 \<and> Limit ex_query = 0 \<and>
   list_all (\<lambda>x. ierr x = None \<and> ifail x = None) (data (db (ex_store ex_items))) \<and>
   (\<exists>down up ds us.
      fst (Query (ex_store ex_items) (ex_query\<lparr>Orders := [OrderByKeyDescending]\<rparr>) ex_consumer) =
        Inr down \<and> delivered down = Some ds \<and>
      fst (Query (ex_store ex_items) (ex_query\<lparr>Orders := [OrderByKey]\<rparr>) ex_consumer) =
        Inr up \<and> delivered up = Some us \<and>
      entries ds = rev (entries us))"
proof -
  have h: "newIterErr (db (ex_store ex_items)) = None" "demand ex_consumer = None"
    "Offset ex_query = 0" "Limit ex_query = 0"
    by (simp_all add: ex_defs)
  have a: "list_all (\<lambda>x. ierr x = None \<and> ifail x = None) (data (db (ex_store ex_items)))"
    by (simp add: ex_defs)
  then have b: "\<forall>x\<in>set (data (db (ex_store ex_items))). ierr x = None \<and> ifail x = None"
    by (simp add: list_all_iff)
  from descending_is_reverse [OF h b] h a show ?thesis by blast
qed

text \<open>
  The example of the spec: on \<open>{"/a/1": "x", "/a/2": "y", "/b/1": "z"}\<close> the query for
  the prefix \<open>"/a"\<close> delivers \<open>("/a/1", "x")\<close>, \<open>("/a/2", "y")\<close> in this order, and in the
  other order with \<open>OrderByKeyDescending\<close>.
\<close>

theorem example_prefix_query:
  "fst (Query (ex_store ex_items) ex_query ex_consumer) =
     Inr (ResultsWithProcess ex_query
       [ResultEntry \<lparr>Key = [0x2f, 0x61, 0x2f, 0x31], Value = Some [0x78], Size = 0\<rparr>,
        ResultEntry \<lparr>Key = [0x2f, 0x61, 0x2f, 0x32], Value = Some [0x79], Size = 0\<rparr>]) \<and>
   fst (Query (ex_store ex_items) (ex_query\<lparr>Orders := [OrderByKeyDescending]\<rparr>) ex_consumer) =
     Inr (ResultsWithProcess (ex_query\<lparr>Orders := [OrderByKeyDescending]\<rparr>)
       [ResultEntry \<lparr>Key = [0x2f, 0x61, 0x2f, 0x32], Value = Some [0x79], Size = 0\<rparr>,
        ResultEntry \<lparr>Key = [0x2f, 0x61, 0x2f, 0x31], Value = Some [0x78], Size = 0\<rparr>])"
  apply (simp add: Query_unfold)
  apply (simp add: ex_defs open_defs)
  apply (simp add: start_defs)
  apply (simp add: loop_defs)
  done

end
